theory Spec2Isabelle
  imports Main "HOL-Library.Word" "HOL-Library.List_Lexorder"
begin

unbundle bit_operations_syntax

section \<open>Values of the Python program\<close>

text \<open>
  A Python \<open>bytes\<close> value is a list of 8-bit words. A Python \<open>str\<close> is a list of
  Unicode code points, each a natural number; \<open>lit\<close> turns an ASCII literal of the
  source into such a list. Python's unbounded integers are \<open>int\<close>.
\<close>

type_synonym byte = "8 word"
type_synonym bytes = "byte list"
type_synonym pystr = "nat list"

definition lit :: "string \<Rightarrow> pystr" where
  "lit s = map of_char s"

text \<open>
  The digest function \<open>keccak\<close> of \<open>eth_utils\<close> is not part of the repository: every
  function that hashes takes it as its first argument \<open>H\<close>.
\<close>

type_synonym hashfn = "bytes \<Rightarrow> bytes"

subsection \<open>Hexadecimal text\<close>

text \<open>
  \<open>to_hex\<close> of \<open>eth_utils\<close> applied to a \<open>bytes\<close> value: the prefix \<open>0x\<close> followed
  by two lower-case hexadecimal digits per byte.
\<close>

definition hex_digit :: "nat \<Rightarrow> nat" where
  "hex_digit d = (if d < 10 then 48 + d else 87 + d)"

definition hex_byte :: "byte \<Rightarrow> pystr" where
  "hex_byte b = [hex_digit (unat b div 16), hex_digit (unat b mod 16)]"

definition to_hex :: "bytes \<Rightarrow> pystr" where
  "to_hex bs = lit ''0x'' @ concat (map hex_byte bs)"

subsection \<open>Exceptions\<close>

text \<open>
  A function of the source that can raise returns \<open>error + 'a\<close>: \<open>Inl\<close> the exception,
  \<open>Inr\<close> the value. \<open>bind_e\<close> runs the rest of a function body after a call that
  returned, and passes an exception on.
\<close>

datatype error = UnicodeEncodeError | ValueError | IndexError | OverflowError | KeyError

definition bind_e :: "error + 'a \<Rightarrow> ('a \<Rightarrow> error + 'b) \<Rightarrow> error + 'b" where
  "bind_e m f = (case m of Inl e \<Rightarrow> Inl e | Inr x \<Rightarrow> f x)"

subsection \<open>Text and bytes\<close>

text \<open>
  \<open>str.encode('utf-8')\<close>: one to four bytes per code point; a surrogate (\<open>0xD800\<close> to
  \<open>0xDFFF\<close>) raises \<open>UnicodeEncodeError\<close>. A number above \<open>0x10FFFF\<close> is not a code
  point of a Python \<open>str\<close>; the model sends it to the same error.
\<close>

definition utf8_char :: "nat \<Rightarrow> error + bytes" where
  "utf8_char c =
     (if c < 0x80 then Inr [of_nat c]
      else if c < 0x800 then Inr [of_nat (0xC0 + c div 64), of_nat (0x80 + c mod 64)]
      else if 0xD800 \<le> c \<and> c \<le> 0xDFFF then Inl UnicodeEncodeError
      else if c < 0x10000 then
        Inr [of_nat (0xE0 + c div 4096), of_nat (0x80 + c div 64 mod 64), of_nat (0x80 + c mod 64)]
      else if c < 0x110000 then
        Inr [of_nat (0xF0 + c div 262144), of_nat (0x80 + c div 4096 mod 64),
             of_nat (0x80 + c div 64 mod 64), of_nat (0x80 + c mod 64)]
      else Inl UnicodeEncodeError)"

fun utf8_encode :: "pystr \<Rightarrow> error + bytes" where
  "utf8_encode [] = Inr []"
| "utf8_encode (c # cs) =
     bind_e (utf8_char c) (\<lambda>b. bind_e (utf8_encode cs) (\<lambda>bs. Inr (b @ bs)))"

text \<open>
  \<open>keccak(text=s)\<close> of \<open>eth_utils\<close> hashes the UTF-8 encoding of \<open>s\<close>.
\<close>

definition keccak_text :: "hashfn \<Rightarrow> pystr \<Rightarrow> error + bytes" where
  "keccak_text H text = bind_e (utf8_encode text) (\<lambda>b. Inr (H b))"

text \<open>
  \<open>bytes.ljust(width, fillbyte)\<close>, \<open>sep.join(xs)\<close>, a bytes literal of ASCII characters,
  \<open>n.to_bytes(len, 'big')\<close> (\<open>OverflowError\<close> for a negative \<open>n\<close> or one that needs more
  than \<open>len\<close> bytes) and \<open>int.from_bytes(bs, 'big')\<close>.
\<close>

definition ljust :: "bytes \<Rightarrow> nat \<Rightarrow> byte \<Rightarrow> bytes" where
  "ljust bs width fillbyte = bs @ replicate (width - length bs) fillbyte"

fun join :: "pystr \<Rightarrow> pystr list \<Rightarrow> pystr" where
  "join sep [] = []"
| "join sep [x] = x"
| "join sep (x # y # ys) = x @ sep @ join sep (y # ys)"

definition ascii :: "string \<Rightarrow> bytes" where
  "ascii s = map of_char s"

definition to_bytes :: "int \<Rightarrow> nat \<Rightarrow> error + bytes" where
  "to_bytes n len =
     (if n < 0 \<or> 256 ^ len \<le> n then Inl OverflowError
      else Inr (map (\<lambda>k. of_int (n div 256 ^ (len - 1 - k))) [0..<len]))"

definition from_bytes :: "bytes \<Rightarrow> int" where
  "from_bytes bs = foldl (\<lambda>a b. 256 * a + uint b) 0 bs"

text \<open>
  A \<open>bytearray\<close> is updated in two ways. \<open>packed[a:b] = v\<close> replaces the slice by \<open>v\<close>,
  whatever the length of \<open>v\<close>. \<open>packed[i] = v\<close> with an integer \<open>v\<close> raises
  \<open>ValueError\<close> unless \<open>0 \<le> v \<le> 255\<close> and \<open>IndexError\<close> when \<open>i\<close> is out of range.
\<close>

definition set_slice :: "bytes \<Rightarrow> nat \<Rightarrow> nat \<Rightarrow> bytes \<Rightarrow> bytes" where
  "set_slice packed a b v = take a packed @ v @ drop (max a b) packed"

definition set_item :: "bytes \<Rightarrow> nat \<Rightarrow> int \<Rightarrow> error + bytes" where
  "set_item packed i v =
     (if v < 0 \<or> 255 < v then Inl ValueError
      else if length packed \<le> i then Inl IndexError
      else Inr (packed[i := of_int v]))"

text \<open>
  \<open>zlib.crc32\<close>: the CRC-32 of ISO 3309 in its bitwise form (reflected polynomial
  \<open>0xEDB88320\<close>, register started at and finally inverted by \<open>0xFFFFFFFF\<close>), returned as
  a non-negative integer.
\<close>

definition crc_step :: "32 word \<Rightarrow> 32 word" where
  "crc_step c = (if bit c 0 then drop_bit 1 c XOR 0xEDB88320 else drop_bit 1 c)"

definition crc_byte :: "32 word \<Rightarrow> byte \<Rightarrow> 32 word" where
  "crc_byte c b = (crc_step ^^ 8) (c XOR ucast b)"

definition crc32 :: "bytes \<Rightarrow> int" where
  "crc32 bs = uint (foldl crc_byte 0xFFFFFFFF bs XOR 0xFFFFFFFF)"

text \<open>
  The builtins \<open>hex(n)\<close> and \<open>str(n)\<close> of an integer: lower-case hexadecimal after
  \<open>0x\<close>, and decimal, each with a leading \<open>-\<close> for a negative number.
\<close>

function hex_digits :: "nat \<Rightarrow> pystr" where
  "hex_digits n = (if n < 16 then [hex_digit n] else hex_digits (n div 16) @ [hex_digit (n mod 16)])"
  by pat_completeness auto
termination
  by (relation "measure id") auto

declare hex_digits.simps [simp del]

definition hex :: "int \<Rightarrow> pystr" where
  "hex n = (if n < 0 then lit ''-0x'' @ hex_digits (nat (- n)) else lit ''0x'' @ hex_digits (nat n))"

function digits :: "nat \<Rightarrow> pystr" where
  "digits n = (if n < 10 then [48 + n] else digits (n div 10) @ [48 + n mod 10])"
  by pat_completeness auto
termination
  by (relation "measure id") auto

declare digits.simps [simp del]

definition str :: "int \<Rightarrow> pystr" where
  "str n = (if n < 0 then lit ''-'' @ digits (nat (- n)) else digits (nat n))"

subsection \<open>JSON text\<close>

text \<open>
  \<open>json.dumps(obj, sort_keys=True)\<close> for the objects the program serialises: a
  dictionary with string keys whose values are strings or lists of strings. With the
  default \<open>ensure_ascii\<close> a string is written between double quotes; the quote, the
  backslash and the control characters with a short form are escaped by a backslash
  (code point 92), every other code point outside \<open>0x20 .. 0x7E\<close> as a backslash, the
  letter u and four hexadecimal digits, one above \<open>0xFFFF\<close> as a surrogate pair. The items are separated
  by a comma and a space, key and value by a colon and a space, and the keys are
  sorted as strings (code point by code point).
\<close>

datatype jvalue = JStr pystr | JList "pystr list"

definition hex4 :: "nat \<Rightarrow> pystr" where
  "hex4 n = [hex_digit (n div 4096 mod 16), hex_digit (n div 256 mod 16),
             hex_digit (n div 16 mod 16), hex_digit (n mod 16)]"

definition escape_char :: "nat \<Rightarrow> pystr" where
  "escape_char c =
     (if c = 34 then [92, 34]
      else if c = 92 then [92, 92]
      else if c = 10 then [92, 110]
      else if c = 13 then [92, 114]
      else if c = 9 then [92, 116]
      else if c = 8 then [92, 98]
      else if c = 12 then [92, 102]
      else if 32 \<le> c \<and> c \<le> 126 then [c]
      else if c < 0x10000 then [92, 117] @ hex4 c
      else [92, 117] @ hex4 (0xD800 + (c - 0x10000) div 1024 mod 1024)
           @ [92, 117] @ hex4 (0xDC00 + (c - 0x10000) mod 1024))"

definition json_str :: "pystr \<Rightarrow> pystr" where
  "json_str s = [34] @ concat (map escape_char s) @ [34]"

fun json_value :: "jvalue \<Rightarrow> pystr" where
  "json_value (JStr s) = json_str s"
| "json_value (JList xs) = lit ''['' @ join (lit '', '') (map json_str xs) @ lit '']''"

definition json_dumps_sorted :: "(pystr \<times> jvalue) list \<Rightarrow> pystr" where
  "json_dumps_sorted items =
     lit ''{'' @ join (lit '', '')
                   (map (\<lambda>(k, v). json_str k @ lit '': '' @ json_value v) (sort_key fst items))
     @ lit ''}''"

subsection \<open>Dictionaries\<close>

text \<open>
  A Python \<open>dict\<close> keeps its keys in insertion order: the model is a list of key-value
  pairs with distinct keys. \<open>d[k] = v\<close> replaces the value of a key that is present, in
  place, and appends a new key at the end; \<open>d.update(other)\<close> stores the items of
  \<open>other\<close> one after the other; a dictionary display \<open>{k1: v1, ...}\<close> does the same from
  the empty dictionary.
\<close>

fun dict_set :: "('k \<times> 'v) list \<Rightarrow> 'k \<Rightarrow> 'v \<Rightarrow> ('k \<times> 'v) list" where
  "dict_set [] k v = [(k, v)]"
| "dict_set ((k', v') # d) k v =
     (if k' = k then (k', v) # d else (k', v') # dict_set d k v)"

definition dict_update :: "('k \<times> 'v) list \<Rightarrow> ('k \<times> 'v) list \<Rightarrow> ('k \<times> 'v) list" where
  "dict_update d other = foldl (\<lambda>d (k, v). dict_set d k v) d other"

subsection \<open>The digest function used for closed examples\<close>

text \<open>
  Keccak-256 as \<open>eth_utils.keccak\<close> computes it: the Keccak-f[1600] permutation on 25
  lanes of 64 bits (lane \<open>(x, y)\<close> at position \<open>x + 5 * y\<close>), rate 136 bytes,
  padding \<open>0x01 .. 0x80\<close>, 32 bytes of output. It is a library function, so the
  functions of the program below do not refer to it: they take the digest function as
  an argument, and \<open>keccak256\<close> only instantiates that argument in closed examples.
\<close>

type_synonym lane = "64 word"

definition keccak_rc :: "lane list" where
  "keccak_rc =
     [0x0000000000000001, 0x0000000000008082, 0x800000000000808A, 0x8000000080008000,
      0x000000000000808B, 0x0000000080000001, 0x8000000080008081, 0x8000000000008009,
      0x000000000000008A, 0x0000000000000088, 0x0000000080008009, 0x000000008000000A,
      0x000000008000808B, 0x800000000000008B, 0x8000000000008089, 0x8000000000008003,
      0x8000000000008002, 0x8000000000000080, 0x000000000000800A, 0x800000008000000A,
      0x8000000080008081, 0x8000000000008080, 0x0000000080000001, 0x8000000080008008]"

definition keccak_rot :: "nat list" where
  "keccak_rot =
     [0, 1, 62, 28, 27,  36, 44, 6, 55, 20,  3, 10, 43, 25, 39,
      41, 45, 15, 21, 8,  18, 2, 61, 56, 14]"

definition theta :: "lane list \<Rightarrow> lane list" where
  "theta A =
     (let C = map (\<lambda>x. A ! x XOR A ! (x + 5) XOR A ! (x + 10) XOR A ! (x + 15) XOR A ! (x + 20))
                [0..<5];
          D = map (\<lambda>x. C ! ((x + 4) mod 5) XOR word_rotl 1 (C ! ((x + 1) mod 5))) [0..<5]
      in map (\<lambda>i. A ! i XOR D ! (i mod 5)) [0..<25])"

definition rho_pi :: "lane list \<Rightarrow> lane list" where
  "rho_pi A =
     map (\<lambda>j. let s = (j mod 5 + 3 * (j div 5)) mod 5 + 5 * (j mod 5)
              in word_rotl (keccak_rot ! s) (A ! s)) [0..<25]"

definition chi :: "lane list \<Rightarrow> lane list" where
  "chi B =
     map (\<lambda>i. B ! i XOR (NOT (B ! ((i mod 5 + 1) mod 5 + 5 * (i div 5)))
                          AND B ! ((i mod 5 + 2) mod 5 + 5 * (i div 5)))) [0..<25]"

definition keccak_round :: "lane list \<Rightarrow> lane \<Rightarrow> lane list" where
  "keccak_round A rc = (let B = chi (rho_pi (theta A)) in B[0 := B ! 0 XOR rc])"

definition keccak_f :: "lane list \<Rightarrow> lane list" where
  "keccak_f A = foldl keccak_round A keccak_rc"

definition keccak_pad :: "bytes \<Rightarrow> bytes" where
  "keccak_pad msg =
     (let q = 136 - length msg mod 136
      in if q = 1 then msg @ [0x81] else msg @ [0x01] @ replicate (q - 2) 0 @ [0x80])"

definition le64 :: "bytes \<Rightarrow> lane" where
  "le64 bs = foldr (\<lambda>b acc. ucast b OR push_bit 8 acc) bs 0"

definition absorb :: "lane list \<Rightarrow> bytes \<Rightarrow> lane list" where
  "absorb A blk =
     keccak_f (map (\<lambda>i. if i < 17 then A ! i XOR le64 (take 8 (drop (8 * i) blk)) else A ! i)
                 [0..<25])"

definition lane_bytes :: "lane \<Rightarrow> bytes" where
  "lane_bytes w = map (\<lambda>k. ucast (drop_bit (8 * k) w)) [0..<8]"

definition keccak256 :: "bytes \<Rightarrow> bytes" where
  "keccak256 msg =
     (let m = keccak_pad msg;
          A = foldl absorb (replicate 25 0)
                (map (\<lambda>k. take 136 (drop (136 * k) m)) [0..<length m div 136])
      in concat (map (\<lambda>i. lane_bytes (A ! i)) [0..<4]))"

lemma length_keccak256: "length (keccak256 msg) = 32"
  by (simp add: keccak256_def Let_def lane_bytes_def length_concat o_def sum_list_triv)

text \<open>
  What the program relies on of \<open>keccak\<close>: a digest has 32 bytes.
\<close>

definition hash32 :: "hashfn \<Rightarrow> bool" where
  "hash32 H = (\<forall>x. length (H x) = 32)"

lemma hash32_keccak256: "hash32 keccak256"
  by (simp add: hash32_def length_keccak256)

section \<open>Records and slot packing (generate-genesis-plants.py)\<close>

text \<open>
  The dataclass \<open>PlantData\<close>, with the fields in the order of the source.
\<close>

record PlantData =
  plant_id :: int
  scientific_name :: pystr
  common_names :: "pystr list"
  genus :: pystr
  family :: pystr
  ncbi_code :: pystr
  properties :: "pystr list"
  conservation_status :: pystr
  rarity_tier :: int

text \<open>
  \<open>PlantData.generate_seed\<close>: the f-string \<open>data\<close> and its digest. The string is built
  from \<open>scientific_name\<close> and \<open>ncbi_code\<close>; \<open>plant_id\<close> is not part of it.
\<close>

definition generate_seed_data :: "PlantData \<Rightarrow> pystr" where
  "generate_seed_data self =
     scientific_name self @ lit '':'' @ ncbi_code self @ lit '':ANDE:Genesis:2024:Block0''"

definition generate_seed :: "hashfn \<Rightarrow> PlantData \<Rightarrow> error + bytes" where
  "generate_seed H self = keccak_text H (generate_seed_data self)"

text \<open>
  \<open>PlantData.generate_traits\<close>: for \<open>i\<close> in \<open>range(8)\<close>, the first byte of
  \<open>keccak(seed + bytes([i]))\<close> read as an integer.
\<close>

definition generate_traits :: "hashfn \<Rightarrow> PlantData \<Rightarrow> error + int list" where
  "generate_traits H self =
     bind_e (generate_seed H self) (\<lambda>seed.
       Inr (map (\<lambda>i. from_bytes (take 1 (H (seed @ [of_nat i])))) [0..<8]))"

text \<open>
  \<open>pack_slot1\<close> is the seed; \<open>pack_slot2\<close> the UTF-8 encoding of \<open>scientific_name\<close>,
  cut to 32 bytes and filled with zero bytes.
\<close>

definition pack_slot1 :: "hashfn \<Rightarrow> PlantData \<Rightarrow> error + bytes" where
  "pack_slot1 H self = generate_seed H self"

definition pack_slot2 :: "PlantData \<Rightarrow> error + bytes" where
  "pack_slot2 self =
     bind_e (utf8_encode (scientific_name self)) (\<lambda>encoded.
       Inr (ljust (take 32 encoded) 32 0))"

text \<open>
  \<open>_encode_properties\<close>: the dictionary \<open>property_map\<close> and the loop that sets one bit
  for every property whose lower-case form is a key. \<open>str.lower\<close> is a builtin: the
  function takes it as the argument \<open>lower\<close>.
\<close>

definition property_map :: "(pystr \<times> nat) list" where
  "property_map =
     [(lit ''psychoactive'', 0), (lit ''medicinal'', 1), (lit ''toxic'', 2),
      (lit ''entheogenic'', 3), (lit ''stimulant'', 4), (lit ''sedative'', 5),
      (lit ''hallucinogenic'', 6), (lit ''dissociative'', 7), (lit ''empathogenic'', 8),
      (lit ''analgesic'', 9), (lit ''anti-inflammatory'', 10), (lit ''antibacterial'', 11),
      (lit ''antifungal'', 12), (lit ''antiviral'', 13), (lit ''antioxidant'', 14),
      (lit ''neuroprotective'', 15), (lit ''traditional'', 16), (lit ''visionary'', 17),
      (lit ''ceremonial'', 18), (lit ''sacred'', 19)]"

definition encode_properties :: "(pystr \<Rightarrow> pystr) \<Rightarrow> PlantData \<Rightarrow> int" where
  "encode_properties lower self =
     foldl (\<lambda>bitfield prop.
              case map_of property_map (lower prop) of
                Some bit_index \<Rightarrow> bitfield OR push_bit bit_index 1
              | None \<Rightarrow> bitfield)
       0 (properties self)"

text \<open>
  \<open>_encode_conservation\<close> and \<open>_get_template_id\<close>: \<open>dict.get\<close> with the defaults 8
  and 9.
\<close>

definition status_map :: "(pystr \<times> int) list" where
  "status_map =
     [(lit ''EX'', 0), (lit ''EW'', 1), (lit ''CR'', 2), (lit ''EN'', 3), (lit ''VU'', 4),
      (lit ''NT'', 5), (lit ''LC'', 6), (lit ''DD'', 7), (lit ''NE'', 8)]"

definition encode_conservation :: "PlantData \<Rightarrow> int" where
  "encode_conservation self =
     (case map_of status_map (conservation_status self) of Some v \<Rightarrow> v | None \<Rightarrow> 8)"

definition template_map :: "(pystr \<times> int) list" where
  "template_map =
     [(lit ''Lophophora'', 0), (lit ''Trichocereus'', 0), (lit ''Echinopsis'', 0),
      (lit ''Carnegia'', 0), (lit ''Ariocarpus'', 0), (lit ''Epithelantha'', 0),
      (lit ''Cannabis'', 1), (lit ''Banisteriopsis'', 1), (lit ''Erythroxylum'', 1),
      (lit ''Mitragyna'', 1),
      (lit ''Psilocybe'', 2), (lit ''Amanita'', 2), (lit ''Panaeolus'', 2), (lit ''Conocybe'', 2),
      (lit ''Brugmansia'', 3), (lit ''Datura'', 3), (lit ''Solandra'', 3), (lit ''Brunfelsia'', 3),
      (lit ''Ipomoea'', 4), (lit ''Argyreia'', 4), (lit ''Turbina'', 4),
      (lit ''Phalaris'', 5),
      (lit ''Salvia'', 6), (lit ''Heimia'', 6),
      (lit ''Nymphaea'', 7),
      (lit ''Mesembryanthemum'', 8)]"

definition get_template_id :: "PlantData \<Rightarrow> int" where
  "get_template_id self =
     (case map_of template_map (genus self) of Some v \<Rightarrow> v | None \<Rightarrow> 9)"

text \<open>
  \<open>pack_slot3\<close>. \<open>set_traits\<close> is the loop
  \<open>for i, trait in enumerate(traits): packed[12 + i] = trait\<close>; the successive values
  of the array \<open>packed\<close> are \<open>packed0\<close> to \<open>packed6\<close>.
\<close>

fun set_traits :: "bytes \<Rightarrow> nat \<Rightarrow> int list \<Rightarrow> error + bytes" where
  "set_traits packed i [] = Inr packed"
| "set_traits packed i (trait # rest) =
     bind_e (set_item packed (12 + i) trait) (\<lambda>packed'. set_traits packed' (i + 1) rest)"

definition pack_slot3 :: "hashfn \<Rightarrow> (pystr \<Rightarrow> pystr) \<Rightarrow> PlantData \<Rightarrow> error + bytes" where
  "pack_slot3 H lower self =
     bind_e (utf8_encode (ncbi_code self)) (\<lambda>encoded.
     let ncbi_bytes = take 8 encoded;
         packed0 = set_slice (replicate 32 0) 0 8 (ljust ncbi_bytes 8 0);
         common_text = join (lit '','') (common_names self)
     in
     bind_e (keccak_text H common_text) (\<lambda>digest.
     let common_hash = take 4 digest;
         packed1 = set_slice packed0 8 12 common_hash
     in
     bind_e (generate_traits H self) (\<lambda>traits.
     bind_e (set_traits packed1 0 traits) (\<lambda>packed2.
     let properties_bits = encode_properties lower self in
     bind_e (to_bytes properties_bits 4) (\<lambda>bits_bytes.
     let packed3 = set_slice packed2 20 24 bits_bytes in
     bind_e (set_item packed3 24 (rarity_tier self)) (\<lambda>packed4.
     bind_e (set_item packed4 25 (encode_conservation self)) (\<lambda>packed5.
     let packed6 = set_slice packed5 26 28 [0, 0];
         checksum = crc32 (take 28 packed6) AND 0xFFFFFFFF
     in
     bind_e (to_bytes checksum 4) (\<lambda>checksum_bytes.
       Inr (set_slice packed6 28 32 checksum_bytes)))))))))"

text \<open>
  \<open>pack_slot4\<close>: the dictionary \<open>metadata\<close> in the order it is written, its JSON text
  with sorted keys, the digest of that text, and byte 0 of the digest overwritten by the
  template id.
\<close>

definition metadata :: "PlantData \<Rightarrow> (pystr \<times> jvalue) list" where
  "metadata self =
     [(lit ''scientificName'', JStr (scientific_name self)),
      (lit ''commonNames'', JList (common_names self)),
      (lit ''genus'', JStr (genus self)),
      (lit ''family'', JStr (family self)),
      (lit ''properties'', JList (properties self))]"

definition pack_slot4 :: "hashfn \<Rightarrow> PlantData \<Rightarrow> error + bytes" where
  "pack_slot4 H self =
     (let metadata_json = json_dumps_sorted (metadata self) in
      bind_e (keccak_text H metadata_json) (\<lambda>metadata_hash.
        set_item metadata_hash 0 (get_template_id self)))"

text \<open>
  \<open>to_storage_slots\<close>: the four slots under the keys \<open>hex(base_slot + k)\<close>.
\<close>

definition to_storage_slots ::
  "hashfn \<Rightarrow> (pystr \<Rightarrow> pystr) \<Rightarrow> PlantData \<Rightarrow> error + (pystr \<times> pystr) list" where
  "to_storage_slots H lower self =
     (let base_slot = 0x10 + (plant_id self - 1) * 4 in
      bind_e (pack_slot1 H self) (\<lambda>slot1.
      bind_e (pack_slot2 self) (\<lambda>slot2.
      bind_e (pack_slot3 H lower self) (\<lambda>slot3.
      bind_e (pack_slot4 H self) (\<lambda>slot4.
        Inr (dict_update []
               [(hex (base_slot + 0), to_hex slot1),
                (hex (base_slot + 1), to_hex slot2),
                (hex (base_slot + 2), to_hex slot3),
                (hex (base_slot + 3), to_hex slot4)]))))))"

section \<open>Merkle tree (generate-genesis-plants.py)\<close>

text \<open>
  The inner \<open>for i in range(0, len(current_level), 2)\<close> loop of
  \<open>calculate_merkle_root\<close>: \<open>i\<close> is the loop variable, \<open>nxt\<close> the list
  \<open>next_level\<close> built so far.
\<close>

function level_pairs :: "hashfn \<Rightarrow> bytes list \<Rightarrow> nat \<Rightarrow> bytes list \<Rightarrow> bytes list" where
  "level_pairs H cur i nxt =
     (if i < length cur then
        (if i + 1 < length cur
         then level_pairs H cur (i + 2) (nxt @ [H (cur ! i @ cur ! (i + 1))])
         else level_pairs H cur (i + 2) (nxt @ [cur ! i]))
      else nxt)"
  by pat_completeness auto
termination
  by (relation "measure (\<lambda>(H, cur, i, nxt). length cur - i)") auto

declare level_pairs.simps [simp del]

text \<open>
  The same loop written by recursion on the list from position \<open>i\<close> on; it is used
  in proofs only and shown equal to the loop below.
\<close>

fun pairup :: "hashfn \<Rightarrow> bytes list \<Rightarrow> bytes list" where
  "pairup H (a # b # xs) = H (a @ b) # pairup H xs"
| "pairup H [a] = [a]"
| "pairup H [] = []"

lemma level_pairs_pairup:
  "level_pairs H cur i nxt = nxt @ pairup H (drop i cur)"
proof (induction H cur i nxt rule: level_pairs.induct)
  case (1 H cur i nxt)
  show ?case
  proof (cases "i < length cur")
    case False
    then show ?thesis by (subst level_pairs.simps) simp
  next
    case inside: True
    show ?thesis
    proof (cases "i + 1 < length cur")
      case True
      have d: "drop i cur = cur ! i # cur ! (i + 1) # drop (i + 2) cur"
        using True inside by (simp add: Cons_nth_drop_Suc)
      have "level_pairs H cur i nxt =
              level_pairs H cur (i + 2) (nxt @ [H (cur ! i @ cur ! (i + 1))])"
        using True inside by (subst level_pairs.simps) simp
      also have "\<dots> = (nxt @ [H (cur ! i @ cur ! (i + 1))]) @ pairup H (drop (i + 2) cur)"
        using "1.IH"(1) [OF inside True] .
      finally show ?thesis by (simp add: d)
    next
      case False
      have d: "drop i cur = [cur ! i]"
      proof -
        have "length cur = Suc i" using False inside by simp
        then show ?thesis
          by (metis Cons_nth_drop_Suc drop_all inside le_refl)
      qed
      have "level_pairs H cur i nxt = level_pairs H cur (i + 2) (nxt @ [cur ! i])"
        using False inside by (subst level_pairs.simps) simp
      also have "\<dots> = (nxt @ [cur ! i]) @ pairup H (drop (i + 2) cur)"
        using "1.IH"(2) [OF inside False] .
      finally show ?thesis using False inside by (simp add: d)
    qed
  qed
qed

lemma length_pairup: "length (pairup H xs) = (length xs + 1) div 2"
  by (induction H xs rule: pairup.induct) simp_all

lemma length_level_pairs:
  "length (level_pairs H cur 0 []) = (length cur + 1) div 2"
  by (simp add: level_pairs_pairup length_pairup)

text \<open>
  The \<open>while len(current_level) > 1\<close> loop of \<open>calculate_merkle_root\<close>.
\<close>

function merkle_loop :: "hashfn \<Rightarrow> bytes list \<Rightarrow> bytes list" where
  "merkle_loop H cur =
     (if length cur > 1 then merkle_loop H (level_pairs H cur 0 []) else cur)"
  by pat_completeness auto
termination
  by (relation "measure (\<lambda>(H, cur). length cur)") (auto simp: length_level_pairs)

declare merkle_loop.simps [simp del]

definition calculate_merkle_root :: "hashfn \<Rightarrow> bytes list \<Rightarrow> bytes" where
  "calculate_merkle_root H leaves =
     (if length leaves = 0 then replicate 32 0
      else if length leaves = 1 then leaves ! 0
      else merkle_loop H leaves ! 0)"

text \<open>
  \<open>generate_merkle_proof\<close>. The inner loop carries \<open>next_level\<close> and the list
  \<open>proof\<close>; \<open>ci\<close> is \<open>current_index\<close>, a Python integer.
\<close>

function proof_pairs ::
  "hashfn \<Rightarrow> bytes list \<Rightarrow> int \<Rightarrow> nat \<Rightarrow> bytes list \<times> pystr list \<Rightarrow> bytes list \<times> pystr list"
where
  "proof_pairs H cur ci i (nxt, proof) =
     (if i < length cur then
        (if i + 1 < length cur then
           (let left = cur ! i;
                right = cur ! (i + 1);
                proof' = (if ci = int i then proof @ [to_hex right]
                          else if ci = int i + 1 then proof @ [to_hex left]
                          else proof)
            in proof_pairs H cur ci (i + 2) (nxt @ [H (left @ right)], proof'))
         else proof_pairs H cur ci (i + 2) (nxt @ [cur ! i], proof))
      else (nxt, proof))"
  by pat_completeness auto
termination
  by (relation "measure (\<lambda>(H, cur, ci, i, st). length cur - i)") auto

declare proof_pairs.simps [simp del]

lemma fst_proof_pairs:
  "fst (proof_pairs H cur ci i (nxt, proof)) = level_pairs H cur i nxt"
proof (induction H cur ci i "(nxt, proof)" arbitrary: nxt "proof" rule: proof_pairs.induct)
  case (1 H cur ci i nxt "proof")
  show ?case
  proof (cases "i < length cur")
    case False
    then show ?thesis
      by (subst proof_pairs.simps, subst level_pairs.simps) simp
  next
    case inside: True
    show ?thesis
    proof (cases "i + 1 < length cur")
      case True
      show ?thesis
        apply (subst proof_pairs.simps)
        apply (subst level_pairs.simps)
        using inside True "1.hyps"(1) [OF inside True refl refl refl]
        apply (simp add: Let_def split del: if_split cong: if_cong)
        done
    next
      case False
      show ?thesis
        apply (subst proof_pairs.simps)
        apply (subst level_pairs.simps)
        using inside False "1.hyps"(2) [OF inside False]
        apply simp
        done
    qed
  qed
qed

function proof_loop :: "hashfn \<Rightarrow> bytes list \<Rightarrow> int \<Rightarrow> pystr list \<Rightarrow> pystr list" where
  "proof_loop H cur ci proof =
     (if length cur > 1 then
        (case proof_pairs H cur ci 0 ([], proof) of
           (nxt, proof') \<Rightarrow> proof_loop H nxt (ci div 2) proof')
      else proof)"
  by pat_completeness auto
termination
  apply (relation "measure (\<lambda>(H, cur, ci, proof). length cur)")
   apply simp
  subgoal for H cur ci pf nxt pf'
    using fst_proof_pairs [of H cur ci 0 "[]" pf] length_level_pairs [of H cur]
    by (cases "proof_pairs H cur ci 0 ([], pf)") simp
  done

declare proof_loop.simps [simp del]

definition generate_merkle_proof :: "hashfn \<Rightarrow> bytes list \<Rightarrow> int \<Rightarrow> pystr list" where
  "generate_merkle_proof H leaves index =
     (if index \<ge> int (length leaves) then [] else proof_loop H leaves index [])"

section \<open>Genesis storage (generate-genesis-plants.py)\<close>

text \<open>
  \<open>generate_genesis_storage\<close>. \<open>seeds_of\<close> is the list comprehension
  \<open>[plant.generate_seed() for plant in plants]\<close> and \<open>store_plants\<close> the loop
  \<open>for plant in plants: storage.update(plant.to_storage_slots())\<close>. The clock value
  \<open>int(time.time())\<close> is the argument \<open>genesis_time\<close>.
\<close>

fun seeds_of :: "hashfn \<Rightarrow> PlantData list \<Rightarrow> error + bytes list" where
  "seeds_of H [] = Inr []"
| "seeds_of H (plant # plants) =
     bind_e (generate_seed H plant) (\<lambda>seed.
     bind_e (seeds_of H plants) (\<lambda>seeds. Inr (seed # seeds)))"

fun store_plants ::
  "hashfn \<Rightarrow> (pystr \<Rightarrow> pystr) \<Rightarrow> (pystr \<times> pystr) list \<Rightarrow> PlantData list
     \<Rightarrow> error + (pystr \<times> pystr) list" where
  "store_plants H lower storage [] = Inr storage"
| "store_plants H lower storage (plant # plants) =
     bind_e (to_storage_slots H lower plant) (\<lambda>plant_slots.
       store_plants H lower (dict_update storage plant_slots) plants)"

definition generate_genesis_storage ::
  "hashfn \<Rightarrow> (pystr \<Rightarrow> pystr) \<Rightarrow> int \<Rightarrow> PlantData list \<Rightarrow> error + (pystr \<times> pystr) list" where
  "generate_genesis_storage H lower genesis_time plants =
     (let storage0 = dict_set [] (lit ''0x0'') (to_hex (ljust (ascii ''Sonk'o wachary'') 32 0));
          storage1 = dict_set storage0 (lit ''0x1'') (to_hex (ljust (ascii ''NCBI.nlm.nih.gov'') 32 0))
      in
      bind_e (to_bytes (int (length plants)) 32) (\<lambda>count_bytes.
      let storage2 = dict_set storage1 (lit ''0x2'') (to_hex count_bytes) in
      bind_e (seeds_of H plants) (\<lambda>plant_seeds.
      let merkle_root = calculate_merkle_root H plant_seeds;
          storage3 = dict_set storage2 (lit ''0x3'') (to_hex merkle_root)
      in
      bind_e (to_bytes genesis_time 32) (\<lambda>time_bytes.
      let storage4 = dict_set storage3 (lit ''0x4'') (to_hex time_bytes);
          version = 1;
          flags = 0;
          version_data = push_bit 8 version OR flags
      in
      bind_e (to_bytes version_data 32) (\<lambda>version_bytes.
      let storage5 = dict_set storage4 (lit ''0x5'') (to_hex version_bytes) in
        store_plants H lower storage5 plants)))))"

section \<open>Seeds (generate-genesis-seeds.py)\<close>

text \<open>
  \<open>generate_seed(plant, plant_id)\<close> of generate-genesis-seeds.py. \<open>plant\<close> is a
  dictionary from strings to strings; a missing key raises \<open>KeyError\<close>. The f-string
  \<open>seed_input\<close> ends with the decimal \<open>plant_id\<close>; the result is \<open>0x\<close> followed by the
  hexadecimal digest.
\<close>

definition seed_input :: "pystr \<Rightarrow> pystr \<Rightarrow> int \<Rightarrow> pystr" where
  "seed_input name genus_name plant_id' =
     name @ lit '':'' @ genus_name @ lit '':'' @ lit ''ANDE:Genesis:2025:Block0:'' @ str plant_id'"

definition seeds_generate_seed :: "hashfn \<Rightarrow> (pystr \<rightharpoonup> pystr) \<Rightarrow> int \<Rightarrow> error + pystr" where
  "seeds_generate_seed H plant plant_id' =
     (case plant (lit ''scientific_name'') of
        None \<Rightarrow> Inl KeyError
      | Some name \<Rightarrow>
          (case plant (lit ''genus'') of
             None \<Rightarrow> Inl KeyError
           | Some genus_name \<Rightarrow>
               bind_e (keccak_text H (seed_input name genus_name plant_id')) (\<lambda>seed_bytes.
                 Inr (lit ''0x'' @ concat (map hex_byte seed_bytes)))))"

text \<open>
  Reading a proof element back: the inverse of \<open>to_hex\<close>, \<open>None\<close> on text that is not
  \<open>0x\<close> followed by pairs of hexadecimal digits.
\<close>

definition hex_value :: "nat \<Rightarrow> nat option" where
  "hex_value c =
     (if 48 \<le> c \<and> c \<le> 57 then Some (c - 48)
      else if 97 \<le> c \<and> c \<le> 102 then Some (c - 87)
      else if 65 \<le> c \<and> c \<le> 70 then Some (c - 55)
      else None)"

fun hex_pairs :: "pystr \<Rightarrow> bytes option" where
  "hex_pairs [] = Some []"
| "hex_pairs [c] = None"
| "hex_pairs (c # d # cs) =
     (case hex_value c of None \<Rightarrow> None
      | Some h \<Rightarrow>
          (case hex_value d of None \<Rightarrow> None
           | Some l \<Rightarrow>
               (case hex_pairs cs of None \<Rightarrow> None
                | Some bs \<Rightarrow> Some (of_nat (16 * h + l) # bs))))"

definition from_hex :: "pystr \<Rightarrow> bytes option" where
  "from_hex s = (if take 2 s = lit ''0x'' then hex_pairs (drop 2 s) else None)"

text \<open>
  Modelled from the spec: \<open>verify(leaf, index, proof, root, total_leaf_count)\<close> is not
  in the source (section 4.4: "replay the same pairing logic implied by \<open>index\<close> and
  \<open>total_leaf_count\<close> at each level, combining the running hash with each proof element
  in the correct left/right order, and compare the final value to \<open>root\<close>"). At a level of
  \<open>m > 1\<close> nodes the node at \<open>idx\<close> is a right member when \<open>idx\<close> is odd, a left member
  with a sibling when \<open>idx + 1 < m\<close>, and the unpaired tail otherwise; the next level has
  \<open>(m + 1) div 2\<close> nodes. A proof that is too short, too long, or not hexadecimal makes
  the replay fail (section 7 (e)).
\<close>

function replay :: "hashfn \<Rightarrow> bytes \<Rightarrow> nat \<Rightarrow> nat \<Rightarrow> pystr list \<Rightarrow> bytes option" where
  "replay H h idx m proof =
     (if m > 1 then
        (if odd idx then
           (case proof of [] \<Rightarrow> None
            | p # rest \<Rightarrow>
                (case from_hex p of None \<Rightarrow> None
                 | Some s \<Rightarrow> replay H (H (s @ h)) (idx div 2) ((m + 1) div 2) rest))
         else if idx + 1 < m then
           (case proof of [] \<Rightarrow> None
            | p # rest \<Rightarrow>
                (case from_hex p of None \<Rightarrow> None
                 | Some s \<Rightarrow> replay H (H (h @ s)) (idx div 2) ((m + 1) div 2) rest))
         else replay H h (idx div 2) ((m + 1) div 2) proof)
      else (if proof = [] then Some h else None))"
  by pat_completeness auto
termination
  by (relation "measure (\<lambda>(H, h, idx, m, proof). m)") auto

declare replay.simps [simp del]

definition verify :: "hashfn \<Rightarrow> bytes \<Rightarrow> int \<Rightarrow> pystr list \<Rightarrow> bytes \<Rightarrow> nat \<Rightarrow> bool" where
  "verify H leaf index proof root total_leaf_count =
     (if 0 \<le> index \<and> index < int total_leaf_count
      then replay H leaf (nat index) total_leaf_count proof = Some root
      else False)"


section \<open>Values for closed examples\<close>

text \<open>
  \<open>str.lower\<close> on ASCII text, the first record of \<open>LEGENDARY_PLANTS\<close>, and the strings
  that \<open>utf8_encode\<close> accepts.
\<close>

definition ascii_lower :: "pystr \<Rightarrow> pystr" where
  "ascii_lower s = map (\<lambda>c. if 65 \<le> c \<and> c \<le> 90 then c + 32 else c) s"

definition peyote :: PlantData where
  "peyote = \<lparr> plant_id = 1, scientific_name = lit ''Lophophora williamsii'',
      common_names = [lit ''Peyote'', lit ''Hikuri'', lit ''Mescal Button''],
      genus = lit ''Lophophora'', family = lit ''Cactaceae'', ncbi_code = lit ''NC030453'',
      properties = [lit ''psychoactive'', lit ''entheogenic'', lit ''hallucinogenic'',
                    lit ''medicinal'', lit ''ceremonial''],
      conservation_status = lit ''VU'', rarity_tier = 3 \<rparr>"

definition encodable :: "pystr \<Rightarrow> bool" where
  "encodable s = list_all (\<lambda>c. c < 0xD800 \<or> (0xDFFF < c \<and> c < 0x110000)) s"

text \<open>
  A digest function with 32 pairwise different bytes, for a closed example where the
  bytes of the digest matter.
\<close>

definition sample_digest :: hashfn where
  "sample_digest bs = map of_nat [0..<32]"

lemma hash32_sample_digest: "hash32 sample_digest"
  by (simp add: hash32_def sample_digest_def)

section \<open>Properties of the Merkle tree\<close>

lemma hex_value_hex_digit: "d < 16 \<Longrightarrow> hex_value (hex_digit d) = Some d"
  by (auto simp: hex_value_def hex_digit_def)

lemma hex_pairs_hex_byte: "hex_pairs (hex_byte b @ cs) = map_option ((#) b) (hex_pairs cs)"
proof -
  have rt: "(of_nat (16 * (unat b div 16) + unat b mod 16) :: byte) = b"
    by simp
  have "unat b < 256"
    using unsigned_less [of b, where 'a = nat] by simp
  then have hi: "unat b div 16 < 16"
    by simp
  have lo: "unat b mod 16 < 16"
    by simp
  show ?thesis
    by (cases "hex_pairs cs")
      (simp_all add: hex_byte_def hex_value_hex_digit [OF hi] hex_value_hex_digit [OF lo] rt)
qed

lemma hex_pairs_concat: "hex_pairs (concat (map hex_byte bs)) = Some bs"
  by (induction bs) (simp_all add: hex_pairs_hex_byte)

lemma from_hex_to_hex: "from_hex (to_hex bs) = Some bs"
  by (simp add: from_hex_def to_hex_def lit_def hex_pairs_concat)

lemma pairup_nth_pair:
  "2 * k + 1 < length xs \<Longrightarrow> pairup H xs ! k = H (xs ! (2 * k) @ xs ! (2 * k + 1))"
proof (induction H xs arbitrary: k rule: pairup.induct)
  case (1 H a b xs)
  then show ?case by (cases k) simp_all
qed simp_all

lemma pairup_nth_tail:
  "odd (length xs) \<Longrightarrow> pairup H xs ! (length xs div 2) = xs ! (length xs - 1)"
proof (induction H xs rule: pairup.induct)
  case (1 H a b xs)
  then have "length xs \<noteq> 0" by auto
  then show ?case using 1 by (simp add: nth_Cons')
qed simp_all

text \<open>
  The proof elements that one pass of the inner loop of \<open>generate_merkle_proof\<close> appends
  from position \<open>i\<close> on: the hexadecimal sibling of the node at \<open>ci\<close> when the node is in a
  full pair, nothing otherwise.
\<close>

definition sibling_hex :: "bytes list \<Rightarrow> int \<Rightarrow> nat \<Rightarrow> pystr list" where
  "sibling_hex cur ci i =
     (if int i \<le> ci \<and> nat ci < length cur \<and> (odd (nat ci) \<or> nat ci + 1 < length cur)
      then [to_hex (cur ! (if even (nat ci) then nat ci + 1 else nat ci - 1))]
      else [])"

lemma snd_proof_pairs:
  "even i \<Longrightarrow> snd (proof_pairs H cur ci i (nxt, pf)) = pf @ sibling_hex cur ci i"
proof (induction H cur ci i "(nxt, pf)" arbitrary: nxt pf rule: proof_pairs.induct)
  case (1 H cur ci i nxt pf)
  have ev: "even (i + 2)" using "1.prems" by simp
  show ?case
  proof (cases "i < length cur")
    case False
    then show ?thesis
      by (subst proof_pairs.simps) (auto simp: sibling_hex_def)
  next
    case inside: True
    show ?thesis
    proof (cases "i + 1 < length cur")
      case True
      define pf' where "pf' = (if ci = int i then pf @ [to_hex (cur ! (i + 1))]
                          else if ci = int i + 1 then pf @ [to_hex (cur ! i)]
                          else pf)"
      have step: "proof_pairs H cur ci i (nxt, pf)
                  = proof_pairs H cur ci (i + 2) (nxt @ [H (cur ! i @ cur ! (i + 1))], pf')"
        using inside True by (subst proof_pairs.simps) (simp add: Let_def pf'_def)
      have ih: "snd (proof_pairs H cur ci (i + 2) (nxt @ [H (cur ! i @ cur ! (i + 1))], pf'))
                = pf' @ sibling_hex cur ci (i + 2)"
        using "1.hyps"(1) [OF inside True refl refl refl ev] by (simp add: pf'_def)
      have "pf' @ sibling_hex cur ci (i + 2) = pf @ sibling_hex cur ci i"
      proof -
        consider "ci = int i" | "ci = int i + 1" | "ci < int i" | "ci \<ge> int i + 2" by linarith
        then show ?thesis
        proof cases
          case 1
          then show ?thesis using True "1.prems" by (simp add: pf'_def sibling_hex_def)
        next
          case 2
          then have "nat ci = i + 1" by simp
          then show ?thesis using 2 True "1.prems" by (simp add: pf'_def sibling_hex_def)
        next
          case 3
          then show ?thesis by (simp add: pf'_def sibling_hex_def)
        next
          case 4
          then show ?thesis by (simp add: pf'_def sibling_hex_def)
        qed
      qed
      then show ?thesis using step ih by simp
    next
      case False
      have step: "proof_pairs H cur ci i (nxt, pf)
                  = proof_pairs H cur ci (i + 2) (nxt @ [cur ! i], pf)"
        using inside False by (subst proof_pairs.simps) simp
      have ih: "snd (proof_pairs H cur ci (i + 2) (nxt @ [cur ! i], pf))
                = pf @ sibling_hex cur ci (i + 2)"
        using "1.hyps"(2) [OF inside False ev] .
      have len: "length cur = i + 1" using inside False by simp
      have "sibling_hex cur ci (i + 2) = []"
        using len by (auto simp: sibling_hex_def)
      moreover have "sibling_hex cur ci i = []"
      proof (cases "int i \<le> ci \<and> nat ci < length cur")
        case True
        then have "nat ci = i" using len by linarith
        then show ?thesis using len "1.prems" by (simp add: sibling_hex_def)
      next
        case False
        then show ?thesis by (auto simp: sibling_hex_def)
      qed
      ultimately show ?thesis using step ih by simp
    qed
  qed
qed

lemma proof_pairs_0:
  "proof_pairs H cur ci 0 ([], pf) = (pairup H cur, pf @ sibling_hex cur ci 0)"
  using fst_proof_pairs [of H cur ci 0 "[]" pf] snd_proof_pairs [of 0 H cur ci "[]" pf]
  by (simp add: level_pairs_pairup prod_eq_iff)

lemma proof_loop_step:
  "1 < length cur \<Longrightarrow>
     proof_loop H cur ci pf = proof_loop H (pairup H cur) (ci div 2) (pf @ sibling_hex cur ci 0)"
  by (subst proof_loop.simps) (simp add: proof_pairs_0)

lemma proof_loop_stop: "length cur \<le> 1 \<Longrightarrow> proof_loop H cur ci pf = pf"
  by (subst proof_loop.simps) simp

lemma proof_loop_append:
  "proof_loop H cur ci pf = pf @ proof_loop H cur ci []"
proof (induction cur arbitrary: ci pf rule: measure_induct_rule [where f = length])
  case (less cur)
  show ?case
  proof (cases "1 < length cur")
    case True
    have shorter: "length (pairup H cur) < length cur"
      using True by (simp add: length_pairup)
    show ?thesis
      using less.IH [OF shorter, of "ci div 2" "pf @ sibling_hex cur ci 0"]
        less.IH [OF shorter, of "ci div 2" "sibling_hex cur ci 0"]
      by (simp add: proof_loop_step [OF True])
  next
    case False
    then show ?thesis by (simp add: proof_loop_stop)
  qed
qed

lemma merkle_loop_step: "1 < length cur \<Longrightarrow> merkle_loop H cur = merkle_loop H (pairup H cur)"
  by (subst merkle_loop.simps) (simp add: level_pairs_pairup)

lemma merkle_loop_stop: "length cur \<le> 1 \<Longrightarrow> merkle_loop H cur = cur"
  by (subst merkle_loop.simps) simp

lemma replay_proof_loop:
  "j < length cur \<Longrightarrow>
     replay H (cur ! j) j (length cur) (proof_loop H cur (int j) []) = Some (merkle_loop H cur ! 0)"
proof (induction cur arbitrary: j rule: measure_induct_rule [where f = length])
  case (less cur)
  show ?case
  proof (cases "1 < length cur")
    case False
    then have "length cur = 1" "j = 0" using less.prems by simp_all
    then show ?thesis
      by (subst replay.simps) (simp add: proof_loop_stop merkle_loop_stop)
  next
    case True
    let ?nxt = "pairup H cur"
    have shorter: "length ?nxt < length cur"
      using True by (simp add: length_pairup)
    have j2: "j div 2 < length ?nxt"
      using less.prems by (simp add: length_pairup)
    have ih: "replay H (?nxt ! (j div 2)) (j div 2) (length ?nxt)
                (proof_loop H ?nxt (int (j div 2)) []) = Some (merkle_loop H ?nxt ! 0)"
      using less.IH [OF shorter j2] .
    have pl: "proof_loop H cur (int j) []
              = sibling_hex cur (int j) 0 @ proof_loop H ?nxt (int (j div 2)) []"
      using proof_loop_step [OF True, of H "int j" "[]"]
        proof_loop_append [of H ?nxt "int (j div 2)" "sibling_hex cur (int j) 0"]
      by (simp add: zdiv_int)
    have len: "Suc (length cur) div 2 = length ?nxt" by (simp add: length_pairup)
    show ?thesis
    proof (cases "odd j")
      case odd: True
      then obtain k where k: "j = 2 * k + 1" by (auto elim: oddE)
      have sib: "sibling_hex cur (int j) 0 = [to_hex (cur ! (j - 1))]"
        using odd less.prems by (simp add: sibling_hex_def)
      have node: "?nxt ! (j div 2) = H (cur ! (j - 1) @ cur ! j)"
        using pairup_nth_pair [of k cur H] less.prems k by simp
      show ?thesis
        apply (subst replay.simps)
        using True odd ih
        apply (simp add: pl sib from_hex_to_hex node len merkle_loop_step)
        done
    next
      case even: False
      then obtain k where k: "j = 2 * k" by (auto elim: evenE)
      show ?thesis
      proof (cases "j + 1 < length cur")
        case paired: True
        have sib: "sibling_hex cur (int j) 0 = [to_hex (cur ! (j + 1))]"
          using even paired by (simp add: sibling_hex_def)
        have node: "?nxt ! (j div 2) = H (cur ! j @ cur ! (j + 1))"
          using pairup_nth_pair [of k cur H] paired k by simp
        show ?thesis
          apply (subst replay.simps)
          using True even paired ih
          apply (simp add: pl sib from_hex_to_hex node len merkle_loop_step)
          done
      next
        case tail: False
        then have lj: "length cur = j + 1" using less.prems by simp
        have sib: "sibling_hex cur (int j) 0 = []"
          using even tail by (simp add: sibling_hex_def)
        have node: "?nxt ! (j div 2) = cur ! j"
          using pairup_nth_tail [of cur H] even lj by simp
        show ?thesis
          apply (subst replay.simps)
          using True even tail ih
          apply (simp add: pl sib node len merkle_loop_step)
          done
      qed
    qed
  qed
qed


lemma proof_three_leaves:
  "generate_merkle_proof H [A, B, C] 0 = [to_hex B, to_hex C]"
  "generate_merkle_proof H [A, B, C] 1 = [to_hex A, to_hex C]"
  "generate_merkle_proof H [A, B, C] 2 = [to_hex (H (A @ B))]"
  by (simp_all add: generate_merkle_proof_def proof_loop_step proof_loop_stop sibling_hex_def)

lemma root_three_leaves: "calculate_merkle_root H [A, B, C] = H (H (A @ B) @ C)"
  by (simp add: calculate_merkle_root_def merkle_loop_step merkle_loop_stop)

lemma root_next_level:
  assumes "2 \<le> length leaves"
  shows "calculate_merkle_root H leaves = calculate_merkle_root H (pairup H leaves)"
proof -
  have big: "1 < length leaves" using assms by simp
  have pos: "1 \<le> length (pairup H leaves)" using assms by (simp add: length_pairup)
  have "calculate_merkle_root H (pairup H leaves) = merkle_loop H (pairup H leaves) ! 0"
  proof (cases "length (pairup H leaves) = 1")
    case True
    then show ?thesis by (simp add: calculate_merkle_root_def merkle_loop_stop)
  next
    case False
    moreover have "pairup H leaves \<noteq> []" using pos by auto
    ultimately show ?thesis by (simp add: calculate_merkle_root_def)
  qed
  moreover have "calculate_merkle_root H leaves = merkle_loop H leaves ! 0"
    using big by (auto simp: calculate_merkle_root_def)
  ultimately show ?thesis
    by (simp add: merkle_loop_step [OF big])
qed

text \<open>
  C1: for a non-empty leaf list and an index \<open>i\<close> with \<open>0 \<le> i < length\<close>, replaying the
  proof of \<open>generate_merkle_proof\<close> from the leaf at \<open>i\<close> (left/right order by the parity
  of the index at each level, no proof element consumed where the node is the unpaired
  tail) succeeds and yields \<open>calculate_merkle_root\<close> of the leaves.
\<close>

theorem merkle_proof_verifies:
  assumes "leaves \<noteq> []" and "0 \<le> i" and "i < int (length leaves)"
  shows "verify H (leaves ! nat i) i (generate_merkle_proof H leaves i)
           (calculate_merkle_root H leaves) (length leaves)"
proof -
  have j: "nat i < length leaves" using assms by simp
  have root: "calculate_merkle_root H leaves = merkle_loop H leaves ! 0"
    using assms(1) by (cases leaves) (auto simp: calculate_merkle_root_def merkle_loop_stop)
  show ?thesis
    using assms replay_proof_loop [OF j, of H]
    by (simp add: verify_def generate_merkle_proof_def root)
qed


theorem merkle_proof_verifies_witness:
  "[[1], [2], [3 :: byte]] \<noteq> [] \<and> (0 :: int) \<le> 2 \<and> (2 :: int) < int (length [[1], [2], [3 :: byte]])
   \<and> verify keccak256 ([[1], [2], [3]] ! nat 2) 2
        (generate_merkle_proof keccak256 [[1], [2], [3]] 2)
        (calculate_merkle_root keccak256 [[1], [2], [3]]) (length [[1], [2], [3 :: byte]])
   \<and> generate_merkle_proof keccak256 [[1], [2], [3]] 2 = [to_hex (keccak256 [1, 2])]"
proof -
  have ne: "[[1], [2], [3 :: byte]] \<noteq> []" by simp
  have lo: "(0 :: int) \<le> 2" by simp
  have hi: "(2 :: int) < int (length [[1], [2], [3 :: byte]])" by simp
  show ?thesis
    using merkle_proof_verifies [OF ne lo hi, of keccak256]
      proof_three_leaves(3) [of keccak256 "[1]" "[2]" "[3]"]
    by simp
qed

text \<open>
  C2: for two or more leaves the root is the root of the next level, which has
  \<open>(n + 1) div 2\<close> nodes: node \<open>k\<close> is \<open>H (left @ right)\<close> of the full pair
  \<open>(2k, 2k + 1)\<close>, and for an odd \<open>n\<close> the last node is the last leaf itself, unchanged.
  For three leaves \<open>[A, B, C]\<close> the root is \<open>H (H (A @ B) @ C)\<close>.
\<close>

theorem merkle_root_level_by_level:
  assumes "2 \<le> length leaves"
  shows "calculate_merkle_root H leaves = calculate_merkle_root H (level_pairs H leaves 0 [])
       \<and> length (level_pairs H leaves 0 []) = (length leaves + 1) div 2
       \<and> (\<forall>k. 2 * k + 1 < length leaves \<longrightarrow>
              level_pairs H leaves 0 [] ! k = H (leaves ! (2 * k) @ leaves ! (2 * k + 1)))
       \<and> (odd (length leaves) \<longrightarrow>
              level_pairs H leaves 0 [] ! (length leaves div 2) = leaves ! (length leaves - 1))
       \<and> calculate_merkle_root H [A, B, C] = H (H (A @ B) @ C)"
  using assms root_next_level [OF assms, of H]
  by (simp add: level_pairs_pairup length_pairup pairup_nth_pair pairup_nth_tail root_three_leaves)

theorem merkle_root_level_by_level_witness:
  "(2 :: nat) \<le> length [[1], [2], [3 :: byte]]
   \<and> calculate_merkle_root keccak256 [[1], [2], [3]]
       = calculate_merkle_root keccak256 (level_pairs keccak256 [[1], [2], [3]] 0 [])
   \<and> level_pairs keccak256 [[1], [2], [3]] 0 [] = [keccak256 [1, 2], [3]]
   \<and> calculate_merkle_root keccak256 [[1], [2], [3]] = keccak256 (keccak256 [1, 2] @ [3])"
proof -
  have two: "(2 :: nat) \<le> length [[1], [2], [3 :: byte]]" by simp
  show ?thesis
    using merkle_root_level_by_level [OF two, of keccak256 "[1]" "[2]" "[3]"]
    by (simp add: level_pairs_pairup calculate_merkle_root_def merkle_loop_step merkle_loop_stop)
qed

text \<open>
  C7: for an index at or beyond the number of leaves \<open>generate_merkle_proof\<close> returns
  the empty proof. The function has no failing branch.
\<close>

theorem merkle_proof_out_of_range:
  "int (length leaves) \<le> index \<Longrightarrow> generate_merkle_proof H leaves index = []"
  by (simp add: generate_merkle_proof_def)

theorem merkle_proof_out_of_range_witness:
  "int (length [[1], [2], [3 :: byte]]) \<le> 3 \<and> generate_merkle_proof keccak256 [[1], [2], [3]] 3 = []"
  using merkle_proof_out_of_range [of "[[1], [2], [3]]" 3 keccak256] by simp

text \<open>
  C8: \<open>calculate_merkle_root\<close> of the empty leaf list is the all-zero 32-byte value,
  and of a one-element list it is that leaf itself, with no hashing.
\<close>

theorem merkle_root_empty_and_single:
  "calculate_merkle_root H [] = replicate 32 0 \<and> calculate_merkle_root H [x] = x"
  by (simp add: calculate_merkle_root_def)

section \<open>Properties of slot packing\<close>

lemma bind_e_Inr [simp]: "bind_e (Inr x) f = f x"
  by (simp add: bind_e_def)

lemma bind_e_Inl [simp]: "bind_e (Inl e) f = Inl e"
  by (simp add: bind_e_def)

lemma bind_e_eq_Inr: "bind_e m f = Inr y \<longleftrightarrow> (\<exists>x. m = Inr x \<and> f x = Inr y)"
  by (cases m) simp_all

subsection \<open>Property bitfield\<close>

lemma property_map_range: "map_of property_map k = Some i \<Longrightarrow> i < 20"
  by (auto simp: property_map_def split: if_splits)

lemma bitfield_step:
  fixes b :: int
  assumes "0 \<le> b" "b < 2 ^ 20" "i < 20"
  shows "0 \<le> b OR push_bit i 1 \<and> b OR push_bit i 1 < 2 ^ 20"
proof -
  have "(2 :: int) ^ i < 2 ^ 20"
    using assms(3) by (intro power_strict_increasing) simp_all
  with assms(1,2) have "b OR 2 ^ i < 2 ^ 20"
    by (rule OR_upper)
  moreover have "0 \<le> b OR 2 ^ i"
    using assms(1) by simp
  ultimately show ?thesis
    by (simp add: push_bit_eq_mult)
qed

lemma bitfield_fold:
  fixes b :: int
  assumes "0 \<le> b" "b < 2 ^ 20"
  shows "0 \<le> foldl (\<lambda>bitfield prop.
              case map_of property_map (lower prop) of
                Some bit_index \<Rightarrow> bitfield OR push_bit bit_index 1
              | None \<Rightarrow> bitfield) b ps
       \<and> foldl (\<lambda>bitfield prop.
              case map_of property_map (lower prop) of
                Some bit_index \<Rightarrow> bitfield OR push_bit bit_index 1
              | None \<Rightarrow> bitfield) b ps < 2 ^ 20"
  using assms
proof (induction ps arbitrary: b)
  case Nil
  then show ?case by simp
next
  case (Cons p ps)
  show ?case
  proof (cases "map_of property_map (lower p)")
    case None
    then show ?thesis using Cons by simp
  next
    case (Some i)
    then have "i < 20" by (rule property_map_range)
    then have "0 \<le> b OR push_bit i 1 \<and> b OR push_bit i 1 < 2 ^ 20"
      using Cons.prems bitfield_step by blast
    then show ?thesis using Cons.IH [of "b OR push_bit i 1"] Some by simp
  qed
qed

lemma encode_properties_range:
  "0 \<le> encode_properties lower self \<and> encode_properties lower self < 2 ^ 20"
  unfolding encode_properties_def by (rule bitfield_fold) simp_all

lemma to_bytes_length: "to_bytes n len = Inr bs \<Longrightarrow> length bs = len"
  by (auto simp: to_bytes_def split: if_splits)

lemma to_bytes_ok: "0 \<le> n \<Longrightarrow> n < 256 ^ len \<Longrightarrow> \<exists>bs. to_bytes n len = Inr bs \<and> length bs = len"
  by (simp add: to_bytes_def)

subsection \<open>Byte arrays\<close>

lemma set_item_ok:
  "0 \<le> v \<Longrightarrow> v \<le> 255 \<Longrightarrow> i < length p \<Longrightarrow> set_item p i v = Inr (p[i := of_int v])"
  by (simp add: set_item_def)

lemma set_traits_ok:
  assumes "\<forall>t \<in> set ts. 0 \<le> t \<and> t \<le> 255" and "12 + i + length ts \<le> length p"
  shows "set_traits p i ts
           = Inr (take (12 + i) p @ map of_int ts @ drop (12 + i + length ts) p)"
  using assms
proof (induction ts arbitrary: p i)
  case Nil
  then show ?case by simp
next
  case (Cons t ts)
  let ?p = "p[12 + i := of_int t]"
  have item: "set_item p (12 + i) t = Inr ?p"
    using Cons.prems by (simp add: set_item_ok)
  have rest: "set_traits ?p (i + 1) ts
                = Inr (take (12 + (i + 1)) ?p @ map of_int ts @ drop (12 + (i + 1) + length ts) ?p)"
    using Cons.prems by (intro Cons.IH) simp_all
  have "take (Suc (12 + i)) ?p = take (12 + i) ?p @ [?p ! (12 + i)]"
    using Cons.prems(2) by (intro take_Suc_conv_app_nth) simp
  then have front: "take (12 + (i + 1)) ?p = take (12 + i) p @ [of_int t]"
    using Cons.prems(2) by simp
  have tail: "drop (12 + (i + 1) + length ts) ?p = drop (12 + i + length (t # ts)) p"
    by (simp add: ac_simps)
  have "set_traits p i (t # ts) = set_traits ?p (i + 1) ts"
    by (simp only: set_traits.simps item bind_e_Inr)
  also have "\<dots> = Inr ((take (12 + i) p @ [of_int t]) @ map of_int ts
                        @ drop (12 + i + length (t # ts)) p)"
    by (simp only: rest front tail)
  also have "\<dots> = Inr (take (12 + i) p @ map of_int (t # ts)
                        @ drop (12 + i + length (t # ts)) p)"
    by simp
  finally show ?case .
qed

lemma from_bytes_take1: "0 \<le> from_bytes (take 1 bs) \<and> from_bytes (take 1 bs) \<le> 255"
proof (cases bs)
  case Nil
  then show ?thesis by (simp add: from_bytes_def)
next
  case (Cons b rest)
  have "uint b < 256" using uint_lt2p [of b] by simp
  then show ?thesis using Cons by (simp add: from_bytes_def)
qed

lemma generate_traits_range:
  assumes "generate_traits H self = Inr ts"
  shows "length ts = 8 \<and> (\<forall>t \<in> set ts. 0 \<le> t \<and> t \<le> 255)"
proof -
  obtain seed where "ts = map (\<lambda>i. from_bytes (take 1 (H (seed @ [of_nat i])))) [0..<8]"
    using assms by (auto simp: generate_traits_def bind_e_eq_Inr)
  then show ?thesis using from_bytes_take1 by auto
qed

lemma crc32_range: "0 \<le> crc32 bs \<and> crc32 bs < 2 ^ 32"
  using uint_lt2p [of "foldl crc_byte 0xFFFFFFFF bs XOR 0xFFFFFFFF"]
  by (simp add: crc32_def)

lemma crc32_mask: "crc32 bs AND 0xFFFFFFFF = crc32 bs"
proof -
  have "crc32 bs AND mask 32 = crc32 bs"
    using crc32_range [of bs] by (simp flip: take_bit_eq_mask add: take_bit_int_eq_self)
  then show ?thesis by (simp add: mask_eq_exp_minus_1)
qed

text \<open>
  The four big-endian bytes of a number below \<open>2 ^ 32\<close>, and the first 28 bytes of
  slot 3 written as one list; both are used to state what \<open>pack_slot3\<close> returns.
\<close>

definition be4 :: "int \<Rightarrow> bytes" where
  "be4 n = [of_int (n div 16777216), of_int (n div 65536), of_int (n div 256), of_int n]"

lemma to_bytes_4: "0 \<le> n \<Longrightarrow> n < 2 ^ 32 \<Longrightarrow> to_bytes n 4 = Inr (be4 n)"
  by (simp add: to_bytes_def be4_def upt_rec)

definition slot3_body :: "bytes \<Rightarrow> bytes \<Rightarrow> int list \<Rightarrow> int \<Rightarrow> int \<Rightarrow> int \<Rightarrow> bytes" where
  "slot3_body encoded digest traits bits tier status =
     ljust (take 8 encoded) 8 0 @ take 4 digest @ map of_int traits @ be4 bits
     @ [of_int tier, of_int status, 0, 0]"

lemma length_slot3_body:
  "4 \<le> length digest \<Longrightarrow> length traits = 8 \<Longrightarrow>
     length (slot3_body encoded digest traits bits tier status) = 28"
  by (simp add: slot3_body_def ljust_def be4_def)

lemma encode_conservation_range: "0 \<le> encode_conservation self \<and> encode_conservation self \<le> 8"
  by (auto simp: encode_conservation_def status_map_def split: option.splits if_splits)

lemma pack_slot3_eq:
  assumes "hash32 H"
  shows "pack_slot3 H lower self =
     bind_e (utf8_encode (ncbi_code self)) (\<lambda>encoded.
     bind_e (keccak_text H (join (lit '','') (common_names self))) (\<lambda>digest.
     bind_e (generate_traits H self) (\<lambda>traits.
       if rarity_tier self < 0 \<or> 255 < rarity_tier self then Inl ValueError
       else (let body = slot3_body encoded digest traits (encode_properties lower self)
                          (rarity_tier self) (encode_conservation self)
             in Inr (body @ be4 (crc32 body))))))"
proof (cases "utf8_encode (ncbi_code self)")
  case (Inl e)
  then show ?thesis by (simp add: pack_slot3_def)
next
  case enc: (Inr encoded)
  show ?thesis
  proof (cases "keccak_text H (join (lit '','') (common_names self))")
    case (Inl e)
    then show ?thesis by (simp add: pack_slot3_def enc Let_def)
  next
    case dig: (Inr digest)
    have ld: "length digest = 32"
      using dig assms by (auto simp: keccak_text_def bind_e_eq_Inr hash32_def)
    show ?thesis
    proof (cases "generate_traits H self")
      case (Inl e)
      then show ?thesis by (simp add: pack_slot3_def enc dig Let_def)
    next
      case tr: (Inr traits)
      have lt: "length traits = 8" and rt: "\<forall>t \<in> set traits. 0 \<le> t \<and> t \<le> 255"
        using generate_traits_range [OF tr] by simp_all
      let ?A = "ljust (take 8 encoded) 8 0"
      let ?B = "take 4 digest"
      let ?C = "map of_int traits :: bytes"
      let ?bits = "encode_properties lower self"
      let ?D = "be4 ?bits"
      have lA: "length ?A = 8" by (simp add: ljust_def)
      have lB: "length ?B = 4" using ld by simp
      have lC: "length ?C = 8" using lt by simp
      have lD: "length ?D = 4" by (simp add: be4_def)
      have p0: "set_slice (replicate 32 0) 0 8 ?A = ?A @ replicate 24 0"
        by (simp add: set_slice_def)
      have p1: "set_slice (?A @ replicate 24 0) 8 12 ?B = ?A @ ?B @ replicate 20 0"
        using lA by (simp add: set_slice_def)
      have p2: "set_traits (?A @ ?B @ replicate 20 0) 0 traits
                  = Inr (?A @ ?B @ ?C @ replicate 12 0)"
        using lA lB lt rt by (subst set_traits_ok) simp_all
      have bits: "to_bytes ?bits 4 = Inr ?D"
        using encode_properties_range [of lower self] by (intro to_bytes_4) simp_all
      have p3: "set_slice (?A @ ?B @ ?C @ replicate 12 0) 20 24 ?D
                  = ?A @ ?B @ ?C @ ?D @ replicate 8 0"
        using lA lB lC by (simp add: set_slice_def)
      show ?thesis
      proof (cases "rarity_tier self < 0 \<or> 255 < rarity_tier self")
        case True
        then have bad: "set_item (?A @ ?B @ ?C @ ?D @ replicate 8 0) 24 (rarity_tier self)
                          = Inl ValueError"
          by (simp add: set_item_def)
        show ?thesis
          by (simp only: pack_slot3_def enc dig tr bind_e_Inr bind_e_Inl Let_def p0 p1 p2 bits p3
                bad True if_True)
      next
        case False
        let ?t = "of_int (rarity_tier self) :: byte"
        let ?c = "of_int (encode_conservation self) :: byte"
        have p4: "set_item (?A @ ?B @ ?C @ ?D @ replicate 8 0) 24 (rarity_tier self)
                    = Inr (?A @ ?B @ ?C @ ?D @ ?t # replicate 7 0)"
          using False lA lB lC lD
          by (simp add: set_item_def list_update_append numeral_eq_Suc)
        have p5: "set_item (?A @ ?B @ ?C @ ?D @ ?t # replicate 7 0) 25 (encode_conservation self)
                    = Inr (?A @ ?B @ ?C @ ?D @ ?t # ?c # replicate 6 0)"
          using encode_conservation_range [of self] lA lB lC lD
          by (simp add: set_item_def list_update_append numeral_eq_Suc)
        have p6: "set_slice (?A @ ?B @ ?C @ ?D @ ?t # ?c # replicate 6 0) 26 28 [0, 0]
                    = ?A @ ?B @ ?C @ ?D @ [?t, ?c, 0, 0] @ replicate 4 0"
          using lA lB lC lD by (simp add: set_slice_def numeral_eq_Suc)
        let ?body = "?A @ ?B @ ?C @ ?D @ [?t, ?c, 0, 0]"
        have lbody: "length ?body = 28" using lA lB lC lD by simp
        have t28: "take 28 (?A @ ?B @ ?C @ ?D @ [?t, ?c, 0, 0] @ replicate 4 0) = ?body"
          using lA lB lC lD by simp
        have cs: "to_bytes (crc32 ?body AND 0xFFFFFFFF) 4 = Inr (be4 (crc32 ?body))"
          using crc32_range [of ?body] by (simp add: crc32_mask to_bytes_4)
        have p7: "set_slice (?A @ ?B @ ?C @ ?D @ [?t, ?c, 0, 0] @ replicate 4 0) 28 32 (be4 (crc32 ?body))
                    = ?body @ be4 (crc32 ?body)"
          using lA lB lC lD by (simp add: set_slice_def)
        show ?thesis
          by (simp only: pack_slot3_def enc dig tr bind_e_Inr Let_def p0 p1 p2 bits p3 p4 p5 p6
                t28 cs p7 slot3_body_def False if_False)
      qed
    qed
  qed
qed

subsection \<open>CRC-32\<close>

lemma xor_eq_0_word: "a XOR b = 0 \<Longrightarrow> a = b" for a b :: "'a::len word"
proof -
  assume h: "a XOR b = 0"
  have "a = (a XOR b) XOR b" by (simp add: xor.assoc)
  then show "a = b" using h by simp
qed

lemma xor_neq_word: "d \<noteq> 0 \<Longrightarrow> a XOR d \<noteq> a" for a d :: "'a::len word"
proof
  assume d: "d \<noteq> 0" and h: "a XOR d = a"
  have "d = a XOR (a XOR d)" by (simp flip: xor.assoc)
  then have "d = 0" using h by simp
  then show False using d by simp
qed

lemma xor_right_cancel_word: "a XOR c = b XOR c \<longleftrightarrow> a = b" for a b c :: "'a::len word"
proof
  assume h: "a XOR c = b XOR c"
  have "a = (a XOR c) XOR c" by (simp add: xor.assoc)
  also have "\<dots> = (b XOR c) XOR c" by (simp only: h)
  also have "\<dots> = b" by (simp add: xor.assoc)
  finally show "a = b" .
qed simp

lemma crc_step_xor: "crc_step (a XOR b) = crc_step a XOR crc_step b"
  by (cases "bit a 0"; cases "bit b 0") (simp_all add: crc_step_def bit_xor_iff ac_simps)

lemma crc_step_zero_iff: "crc_step a = 0 \<longleftrightarrow> a = 0"
proof
  assume z: "crc_step a = 0"
  show "a = 0"
  proof (cases "bit a 0")
    case True
    then have "drop_bit 1 a XOR 0xEDB88320 = 0" using z by (simp add: crc_step_def)
    then have "drop_bit 1 a = (0xEDB88320 :: 32 word)"
      by (rule xor_eq_0_word)
    then have "bit (drop_bit 1 a) 31 = bit (0xEDB88320 :: 32 word) 31" by simp
    moreover have "bit (0xEDB88320 :: 32 word) 31" by simp
    moreover have "\<not> bit (drop_bit 1 a) 31"
      using bit_imp_le_length [of a 32] by (auto simp: bit_drop_bit_eq)
    ultimately show ?thesis by simp
  next
    case False
    then have d: "drop_bit 1 a = 0" using z by (simp add: crc_step_def)
    show ?thesis
    proof (rule bit_eqI)
      fix n
      show "bit a n \<longleftrightarrow> bit (0 :: 32 word) n"
      proof (cases n)
        case 0
        then show ?thesis using False by simp
      next
        case (Suc m)
        have "bit (drop_bit 1 a) m = bit a (Suc m)" by (simp add: bit_drop_bit_eq)
        then show ?thesis using d Suc by simp
      qed
    qed
  qed
next
  assume "a = 0"
  then show "crc_step a = 0" by (simp add: crc_step_def)
qed

lemma crc_steps_xor: "(crc_step ^^ n) (a XOR b) = (crc_step ^^ n) a XOR (crc_step ^^ n) b"
  by (induction n) (simp_all add: crc_step_xor)

lemma crc_steps_zero_iff: "(crc_step ^^ n) a = 0 \<longleftrightarrow> a = 0"
  by (induction n) (simp_all add: crc_step_zero_iff)

lemma crc_steps_compose:
  "(crc_step ^^ (8 * length bs)) ((crc_step ^^ 8) d) = (crc_step ^^ (8 * length (b # bs))) d"
proof -
  have "8 * length (b # bs) = 8 * length bs + 8" by simp
  then show ?thesis by (simp only: funpow_add o_apply)
qed

lemma crc_fold_state:
  "foldl crc_byte (c XOR d) bs = foldl crc_byte c bs XOR (crc_step ^^ (8 * length bs)) d"
proof (induction bs arbitrary: c d)
  case Nil
  then show ?case by simp
next
  case (Cons b bs)
  have "crc_byte (c XOR d) b = crc_byte c b XOR (crc_step ^^ 8) d"
    by (simp add: crc_byte_def crc_steps_xor ac_simps)
  moreover have "(crc_step ^^ (8 * length bs)) ((crc_step ^^ 8) d)
                  = (crc_step ^^ (8 * length (b # bs))) d"
    by (rule crc_steps_compose)
  ultimately show ?case using Cons.IH [of "crc_byte c b" "(crc_step ^^ 8) d"] by simp
qed

lemma crc_fold_flip:
  assumes "i < length bs"
  shows "foldl crc_byte c (bs[i := bs ! i XOR x])
           = foldl crc_byte c bs XOR (crc_step ^^ (8 * (length bs - i))) (ucast x)"
  using assms
proof (induction bs arbitrary: c i)
  case Nil
  then show ?case by simp
next
  case (Cons b bs)
  show ?case
  proof (cases i)
    case 0
    have "crc_byte c (b XOR x) = crc_byte c b XOR (crc_step ^^ 8) (ucast x)"
      by (simp add: crc_byte_def crc_steps_xor unsigned_xor_eq ac_simps)
    moreover have "(crc_step ^^ (8 * length bs)) ((crc_step ^^ 8) (ucast x :: 32 word))
                    = (crc_step ^^ (8 * length (b # bs))) (ucast x)"
      by (rule crc_steps_compose)
    ultimately show ?thesis
      using 0 crc_fold_state [of "crc_byte c b" "(crc_step ^^ 8) (ucast x)" bs] by simp
  next
    case (Suc k)
    then show ?thesis using Cons.prems Cons.IH [of k "crc_byte c b"] by simp
  qed
qed

lemma div_mod_256_eq:
  fixes x y :: int
  assumes "x div 256 = y div 256" "x mod 256 = y mod 256"
  shows "x = y"
  using assms by (metis mult_div_mod_eq)

lemma be4_inject:
  assumes "0 \<le> n" "n < 2 ^ 32" "0 \<le> m" "m < 2 ^ 32" "be4 n = be4 m"
  shows "n = m"
proof -
  have eq: "(of_int a :: byte) = of_int b \<longleftrightarrow> a mod 256 = b mod 256" for a b :: int
    by (simp add: word_of_int_eq_iff take_bit_eq_mod)
  have b3: "(n div 16777216) mod 256 = (m div 16777216) mod 256"
    and b2: "(n div 65536) mod 256 = (m div 65536) mod 256"
    and b1: "(n div 256) mod 256 = (m div 256) mod 256"
    and b0: "n mod 256 = m mod 256"
    using assms(5) by (simp_all add: be4_def eq)
  have "n div 16777216 < 256" "m div 16777216 < 256" "0 \<le> n div 16777216" "0 \<le> m div 16777216"
    using assms(1-4) by simp_all
  then have t3: "n div 16777216 = m div 16777216"
    using b3 by simp
  have s2: "(x div 65536) div 256 = x div 16777216" for x :: int
    by (simp add: zdiv_zmult2_eq [symmetric])
  have s1: "(x div 256) div 256 = x div 65536" for x :: int
    by (simp add: zdiv_zmult2_eq [symmetric])
  have t2: "n div 65536 = m div 65536"
    by (rule div_mod_256_eq) (simp_all add: s2 t3 b2)
  have t1: "n div 256 = m div 256"
    by (rule div_mod_256_eq) (simp_all add: s1 t2 b1)
  show ?thesis
    by (rule div_mod_256_eq) (simp_all add: t1 b0)
qed

lemma crc32_flip:
  assumes "i < length bs" "j < 8"
  shows "crc32 (bs[i := bs ! i XOR push_bit j 1]) \<noteq> crc32 bs"
proof -
  let ?x = "push_bit j 1 :: byte"
  have b: "bit (ucast ?x :: 32 word) j"
    using assms(2) by (simp add: bit_simps)
  have "(ucast ?x :: 32 word) \<noteq> 0"
  proof
    assume h: "(ucast ?x :: 32 word) = 0"
    from b show False unfolding h by simp
  qed
  then have "(crc_step ^^ (8 * (length bs - i))) (ucast ?x) \<noteq> 0"
    by (simp add: crc_steps_zero_iff)
  then have "foldl crc_byte 0xFFFFFFFF (bs[i := bs ! i XOR ?x]) \<noteq> foldl crc_byte 0xFFFFFFFF bs"
    using crc_fold_flip [OF assms(1), of "0xFFFFFFFF" ?x] by (simp add: xor_neq_word)
  then show ?thesis
    by (simp add: crc32_def word_uint_eq_iff [symmetric] xor_right_cancel_word)
qed

lemma utf8_char_ok:
  "(\<exists>b. utf8_char c = Inr b) \<longleftrightarrow> (c < 0xD800 \<or> (0xDFFF < c \<and> c < 0x110000))"
  by (auto simp: utf8_char_def)

lemma utf8_encode_ok: "(\<exists>b. utf8_encode s = Inr b) \<longleftrightarrow> encodable s"
proof (induction s)
  case Nil
  then show ?case by (simp add: encodable_def)
next
  case (Cons c cs)
  have "(\<exists>b. utf8_encode (c # cs) = Inr b)
          \<longleftrightarrow> (\<exists>b. utf8_char c = Inr b) \<and> (\<exists>bs. utf8_encode cs = Inr bs)"
    by (auto simp: bind_e_eq_Inr)
  then show ?case
    using Cons.IH by (simp add: utf8_char_ok encodable_def)
qed

lemma encodable_append [simp]: "encodable (xs @ ys) \<longleftrightarrow> encodable xs \<and> encodable ys"
  by (simp add: encodable_def)

lemma encodable_lit_colon [simp]: "encodable (lit '','')"
  by (simp add: encodable_def lit_def)

lemma encodable_join:
  "encodable sep \<Longrightarrow> xs \<noteq> [] \<Longrightarrow> encodable (join sep xs) \<longleftrightarrow> list_all encodable xs"
  by (induction sep xs rule: join.induct) auto

lemma encodable_join_comma: "encodable (join (lit '','') xs) \<longleftrightarrow> list_all encodable xs"
  by (cases "xs = []") (simp_all add: encodable_join, simp add: encodable_def)

lemma keccak_text_ok: "(\<exists>h. keccak_text H s = Inr h) \<longleftrightarrow> encodable s"
  using utf8_encode_ok [of s] by (auto simp: keccak_text_def bind_e_eq_Inr)

lemma keccak_text_length: "hash32 H \<Longrightarrow> keccak_text H s = Inr h \<Longrightarrow> length h = 32"
  by (auto simp: keccak_text_def bind_e_eq_Inr hash32_def)

lemma encodable_seed_data:
  "encodable (generate_seed_data self) \<longleftrightarrow> encodable (scientific_name self) \<and> encodable (ncbi_code self)"
  by (auto simp: generate_seed_data_def) (simp_all add: encodable_def lit_def)

lemma generate_seed_ok:
  "(\<exists>s. generate_seed H self = Inr s) \<longleftrightarrow> encodable (scientific_name self) \<and> encodable (ncbi_code self)"
  by (simp add: generate_seed_def keccak_text_ok encodable_seed_data)

lemma generate_traits_ok:
  "(\<exists>ts. generate_traits H self = Inr ts) \<longleftrightarrow> (\<exists>s. generate_seed H self = Inr s)"
  by (auto simp: generate_traits_def bind_e_eq_Inr)

lemma pack_slot2_ok: "(\<exists>s. pack_slot2 self = Inr s) \<longleftrightarrow> encodable (scientific_name self)"
  using utf8_encode_ok [of "scientific_name self"] by (auto simp: pack_slot2_def bind_e_eq_Inr)

lemma pack_slot2_length: "pack_slot2 self = Inr s \<Longrightarrow> length s = 32"
  by (auto simp: pack_slot2_def bind_e_eq_Inr ljust_def)

lemma pack_slot3_ok:
  assumes "hash32 H"
  shows "(\<exists>s. pack_slot3 H lower self = Inr s) \<longleftrightarrow>
           encodable (scientific_name self) \<and> encodable (ncbi_code self)
           \<and> list_all encodable (common_names self)
           \<and> 0 \<le> rarity_tier self \<and> rarity_tier self \<le> 255"
    (is "?lhs \<longleftrightarrow> ?rhs")
proof
  assume ?lhs
  then obtain s encoded digest traits where
      "utf8_encode (ncbi_code self) = Inr encoded"
      "keccak_text H (join (lit '','') (common_names self)) = Inr digest"
      "generate_traits H self = Inr traits"
      "\<not> (rarity_tier self < 0 \<or> 255 < rarity_tier self)"
    unfolding pack_slot3_eq [OF assms]
    by (auto simp: bind_e_eq_Inr split: if_splits)
  then show ?rhs
    using utf8_encode_ok [of "ncbi_code self"]
      keccak_text_ok [of H "join (lit '','') (common_names self)"]
      generate_traits_ok [of H self] generate_seed_ok [of H self]
    by (auto simp: encodable_join_comma)
next
  assume r: ?rhs
  then obtain encoded digest traits where
      "utf8_encode (ncbi_code self) = Inr encoded"
      "keccak_text H (join (lit '','') (common_names self)) = Inr digest"
      "generate_traits H self = Inr traits"
    using utf8_encode_ok [of "ncbi_code self"]
      keccak_text_ok [of H "join (lit '','') (common_names self)"]
      generate_traits_ok [of H self] generate_seed_ok [of H self]
    by (auto simp: encodable_join_comma)
  then show ?lhs
    unfolding pack_slot3_eq [OF assms] using r by (simp add: Let_def)
qed

lemma pack_slot3_layout:
  assumes "hash32 H" "pack_slot3 H lower self = Inr slot"
  shows "\<exists>body. length body = 28 \<and> slot = body @ be4 (crc32 body)"
proof -
  obtain encoded digest traits where
      d: "keccak_text H (join (lit '','') (common_names self)) = Inr digest"
      and t: "generate_traits H self = Inr traits"
      and s: "slot = slot3_body encoded digest traits (encode_properties lower self)
                 (rarity_tier self) (encode_conservation self)
               @ be4 (crc32 (slot3_body encoded digest traits (encode_properties lower self)
                 (rarity_tier self) (encode_conservation self)))"
    using assms(2) unfolding pack_slot3_eq [OF assms(1)]
    by (auto simp: bind_e_eq_Inr Let_def split: if_splits)
  have "length digest = 32" using keccak_text_length [OF assms(1) d] .
  moreover have "length traits = 8" using generate_traits_range [OF t] by simp
  ultimately have "length (slot3_body encoded digest traits (encode_properties lower self)
                 (rarity_tier self) (encode_conservation self)) = 28"
    by (intro length_slot3_body) simp_all
  then show ?thesis using s by blast
qed

lemma pack_slot3_bits:
  assumes "hash32 H" "pack_slot3 H lower self = Inr slot"
  shows "take 4 (drop 20 slot) = be4 (encode_properties lower self)"
proof -
  obtain encoded digest traits where
      d: "keccak_text H (join (lit '','') (common_names self)) = Inr digest"
      and t: "generate_traits H self = Inr traits"
      and s: "slot = slot3_body encoded digest traits (encode_properties lower self)
                 (rarity_tier self) (encode_conservation self)
               @ be4 (crc32 (slot3_body encoded digest traits (encode_properties lower self)
                 (rarity_tier self) (encode_conservation self)))"
    using assms(2) unfolding pack_slot3_eq [OF assms(1)]
    by (auto simp: bind_e_eq_Inr Let_def split: if_splits)
  have "length digest = 32" using keccak_text_length [OF assms(1) d] .
  moreover have "length traits = 8" using generate_traits_range [OF t] by simp
  ultimately show ?thesis
    by (simp add: s slot3_body_def ljust_def be4_def)
qed

lemma encode_properties_peyote: "encode_properties ascii_lower peyote = 262219"
  by (simp add: encode_properties_def peyote_def property_map_def ascii_lower_def lit_def)

lemma peyote_encodable:
  "encodable (scientific_name peyote)" "encodable (ncbi_code peyote)"
  "list_all encodable (common_names peyote)"
  by (simp_all add: peyote_def encodable_def lit_def)

lemma peyote_tier: "0 \<le> rarity_tier peyote" "rarity_tier peyote \<le> 255"
  by (simp_all add: peyote_def)

text \<open>
  C9: the bitfield of \<open>_encode_properties\<close> is non-negative and below \<open>2 ^ 20\<close>, no bit
  from index 20 on is set, its 4-byte big-endian encoding does not overflow, and in a
  packed slot 3 that encoding is bytes 20 to 23.
\<close>

theorem properties_bitfield_fits:
  "0 \<le> encode_properties lower self \<and> encode_properties lower self < 2 ^ 20
   \<and> (\<forall>n. 20 \<le> n \<longrightarrow> \<not> bit (encode_properties lower self) n)
   \<and> (\<exists>bs. to_bytes (encode_properties lower self) 4 = Inr bs \<and> length bs = 4)
   \<and> (\<forall>H slot. hash32 H \<longrightarrow> pack_slot3 H lower self = Inr slot \<longrightarrow>
          to_bytes (encode_properties lower self) 4 = Inr (take 4 (drop 20 slot)))"
proof -
  let ?b = "encode_properties lower self"
  have r: "0 \<le> ?b" "?b < 2 ^ 20"
    using encode_properties_range [of lower self] by simp_all
  have nobit: "\<not> bit ?b n" if "20 \<le> n" for n
  proof -
    have "(2 :: int) ^ 20 \<le> 2 ^ n"
      using that by (intro power_increasing) simp_all
    then have "?b < 2 ^ n" using r(2) by linarith
    then have "?b div 2 ^ n = 0" using r(1) by simp
    then show ?thesis by (simp add: bit_iff_odd)
  qed
  have small: "?b < 2 ^ 32" using r(2) by simp
  have enc: "to_bytes ?b 4 = Inr (be4 ?b)"
    using r(1) small by (rule to_bytes_4)
  have ex: "\<exists>bs. to_bytes ?b 4 = Inr bs \<and> length bs = 4"
    using enc by (simp add: be4_def)
  have inslot: "to_bytes ?b 4 = Inr (take 4 (drop 20 slot))"
    if "hash32 H" "pack_slot3 H lower self = Inr slot" for H slot
    using pack_slot3_bits [OF that] enc by simp
  show ?thesis using r nobit ex inslot by blast
qed

theorem properties_bitfield_fits_witness:
  "encode_properties ascii_lower peyote = 262219
   \<and> encode_properties ascii_lower peyote < 2 ^ 20
   \<and> \<not> bit (encode_properties ascii_lower peyote) 20
   \<and> to_bytes (encode_properties ascii_lower peyote) 4 = Inr [0, 4, 0, 75]
   \<and> (\<exists>slot. pack_slot3 keccak256 ascii_lower peyote = Inr slot
          \<and> take 4 (drop 20 slot) = [0, 4, 0, 75])"
proof -
  have v: "to_bytes 262219 4 = Inr [0, 4, 0, 75]"
    by (simp add: to_bytes_def upt_rec)
  obtain slot where s: "pack_slot3 keccak256 ascii_lower peyote = Inr slot"
    using pack_slot3_ok [OF hash32_keccak256, of ascii_lower peyote] peyote_encodable peyote_tier
    by blast
  note t = properties_bitfield_fits [of ascii_lower peyote]
  have "to_bytes (encode_properties ascii_lower peyote) 4 = Inr (take 4 (drop 20 slot))"
    using t hash32_keccak256 s by blast
  then have "take 4 (drop 20 slot) = [0, 4, 0, 75]"
    by (simp add: encode_properties_peyote v)
  then show ?thesis
    using t s by (simp add: encode_properties_peyote v)
qed

text \<open>
  C4: in a packed slot 3 (32 bytes) the last four bytes are the big-endian CRC-32 of the
  first 28, so recomputing the checksum of bytes 0 to 27 gives bytes 28 to 31; after
  flipping any one bit of bytes 0 to 27 the recomputed checksum differs from bytes 28 to
  31.
\<close>

theorem slot3_checksum:
  assumes "hash32 H" and "pack_slot3 H lower self = Inr slot"
  shows "length slot = 32
       \<and> to_bytes (crc32 (take 28 slot)) 4 = Inr (drop 28 slot)
       \<and> (\<forall>i j. i < 28 \<longrightarrow> j < 8 \<longrightarrow>
             to_bytes (crc32 ((take 28 slot)[i := take 28 slot ! i XOR push_bit j 1])) 4
               \<noteq> Inr (drop 28 slot))"
proof -
  obtain body where lb: "length body = 28" and s: "slot = body @ be4 (crc32 body)"
    using pack_slot3_layout [OF assms] by blast
  have t: "take 28 slot = body" and d: "drop 28 slot = be4 (crc32 body)"
    using lb s by simp_all
  have len: "length slot = 32" using lb s by (simp add: be4_def)
  have ok: "to_bytes (crc32 body) 4 = Inr (be4 (crc32 body))"
    using crc32_range [of body] by (intro to_bytes_4) simp_all
  have flip: "to_bytes (crc32 (body[i := body ! i XOR push_bit j 1])) 4 \<noteq> Inr (be4 (crc32 body))"
    if "i < 28" "j < 8" for i j
  proof -
    let ?b = "body[i := body ! i XOR push_bit j 1]"
    have ne: "crc32 ?b \<noteq> crc32 body"
      using that lb by (intro crc32_flip) simp_all
    have "to_bytes (crc32 ?b) 4 = Inr (be4 (crc32 ?b))"
      using crc32_range [of ?b] by (intro to_bytes_4) simp_all
    moreover have "be4 (crc32 ?b) \<noteq> be4 (crc32 body)"
      using be4_inject [of "crc32 ?b" "crc32 body"] crc32_range [of ?b] crc32_range [of body] ne
      by auto
    ultimately show ?thesis by simp
  qed
  show ?thesis using len ok flip by (simp add: t d)
qed

theorem slot3_checksum_witness:
  "hash32 keccak256
   \<and> (\<exists>slot. pack_slot3 keccak256 ascii_lower peyote = Inr slot
         \<and> length slot = 32
         \<and> to_bytes (crc32 (take 28 slot)) 4 = Inr (drop 28 slot)
         \<and> to_bytes (crc32 ((take 28 slot)[3 := take 28 slot ! 3 XOR push_bit 5 1])) 4
              \<noteq> Inr (drop 28 slot))"
proof -
  obtain slot where s: "pack_slot3 keccak256 ascii_lower peyote = Inr slot"
    using pack_slot3_ok [OF hash32_keccak256, of ascii_lower peyote] peyote_encodable peyote_tier
    by blast
  note t = slot3_checksum [OF hash32_keccak256 s]
  have "(3 :: nat) < 28" "(5 :: nat) < 8" by simp_all
  with t have "to_bytes (crc32 ((take 28 slot)[3 := take 28 slot ! 3 XOR push_bit 5 1])) 4
                 \<noteq> Inr (drop 28 slot)"
    by blast
  with t s hash32_keccak256 show ?thesis by blast
qed

subsection \<open>Slot 4\<close>

text \<open>
  Text of ASCII code points only: what \<open>json.dumps\<close> returns, and what \<open>utf8_encode\<close>
  maps byte for byte.
\<close>

definition is_ascii :: "pystr \<Rightarrow> bool" where
  "is_ascii s = list_all (\<lambda>c. c < 128) s"

lemma is_ascii_append [simp]: "is_ascii (xs @ ys) \<longleftrightarrow> is_ascii xs \<and> is_ascii ys"
  by (simp add: is_ascii_def)

lemma is_ascii_Cons [simp]: "is_ascii (c # cs) \<longleftrightarrow> c < 128 \<and> is_ascii cs"
  by (simp add: is_ascii_def)

lemma is_ascii_Nil [simp]: "is_ascii []"
  by (simp add: is_ascii_def)

lemma hex_digit_ascii: "d < 16 \<Longrightarrow> hex_digit d < 128"
  by (simp add: hex_digit_def)

lemma hex4_ascii: "is_ascii (hex4 n)"
  by (simp add: hex4_def hex_digit_ascii)

lemma escape_char_ascii: "is_ascii (escape_char c)"
  by (simp add: escape_char_def hex4_ascii)

lemma concat_ascii: "(\<And>x. x \<in> set xs \<Longrightarrow> is_ascii x) \<Longrightarrow> is_ascii (concat xs)"
  by (induction xs) simp_all

lemma json_str_ascii: "is_ascii (json_str s)"
  by (auto simp: json_str_def escape_char_ascii intro!: concat_ascii)

lemma join_ascii:
  "is_ascii sep \<Longrightarrow> (\<And>x. x \<in> set xs \<Longrightarrow> is_ascii x) \<Longrightarrow> is_ascii (join sep xs)"
  by (induction sep xs rule: join.induct) simp_all

lemma json_value_ascii: "is_ascii (json_value v)"
  by (cases v) (auto simp: json_str_ascii lit_def intro!: join_ascii)

lemma json_dumps_sorted_ascii: "is_ascii (json_dumps_sorted items)"
  by (auto simp: json_dumps_sorted_def json_str_ascii json_value_ascii lit_def intro!: join_ascii)

lemma utf8_encode_ascii: "is_ascii s \<Longrightarrow> utf8_encode s = Inr (map of_nat s)"
  by (induction s) (simp_all add: utf8_char_def)

lemma template_map_values: "\<forall>v \<in> snd ` set template_map. 0 \<le> v \<and> v \<le> 9"
  by (simp add: template_map_def)

lemma get_template_id_range: "0 \<le> get_template_id self \<and> get_template_id self \<le> 9"
proof (cases "map_of template_map (genus self)")
  case None
  then show ?thesis by (simp add: get_template_id_def)
next
  case (Some v)
  then have "v \<in> snd ` set template_map"
    by (metis map_of_SomeD snd_conv image_eqI)
  then show ?thesis using template_map_values Some by (auto simp: get_template_id_def)
qed

lemma pack_slot4_eq:
  assumes "hash32 H"
  shows "pack_slot4 H self
           = Inr ((H (map of_nat (json_dumps_sorted (metadata self))))
                    [0 := of_int (get_template_id self)])"
proof -
  have "length (H (map of_nat (json_dumps_sorted (metadata self)))) = 32"
    using assms by (simp add: hash32_def)
  then have "H (map of_nat (json_dumps_sorted (metadata self))) \<noteq> []"
    by auto
  then show ?thesis
    using get_template_id_range [of self]
    by (simp add: pack_slot4_def keccak_text_def utf8_encode_ascii json_dumps_sorted_ascii
          set_item_def)
qed

lemma metadata_sorted:
  "sort_key fst (metadata self) =
     [(lit ''commonNames'', JList (common_names self)),
      (lit ''family'', JStr (family self)),
      (lit ''genus'', JStr (genus self)),
      (lit ''properties'', JList (properties self)),
      (lit ''scientificName'', JStr (scientific_name self))]"
  by (simp add: metadata_def lit_def)

lemma shifted_eq_constant:
  assumes "length h = 32"
  shows "drop 1 h = take 31 h \<longleftrightarrow> (\<forall>i<32. h ! i = h ! 0)"
proof
  assume eq: "drop 1 h = take 31 h"
  have step: "h ! Suc i = h ! i" if "i < 31" for i
  proof -
    have "drop 1 h ! i = take 31 h ! i" by (simp only: eq)
    then show ?thesis using that assms by simp
  qed
  have "i < 32 \<longrightarrow> h ! i = h ! 0" for i
  proof (induction i)
    case 0
    then show ?case by simp
  next
    case (Suc i)
    then show ?case using step [of i] by simp
  qed
  then show "\<forall>i<32. h ! i = h ! 0" by blast
next
  assume c: "\<forall>i<32. h ! i = h ! 0"
  show "drop 1 h = take 31 h"
  proof (rule nth_equalityI)
    show "length (drop 1 h) = length (take 31 h)" using assms by simp
  next
    fix i assume "i < length (drop 1 h)"
    then have i: "i < 31" using assms by simp
    then have "Suc i < 32" "i < 32" by simp_all
    then have "h ! Suc i = h ! i" using c by metis
    then show "drop 1 h ! i = take 31 h ! i" using i assms by simp
  qed
qed

lemma template_peyote: "get_template_id peyote = 0"
  by (simp add: get_template_id_def template_map_def peyote_def)

text \<open>
  C5 (as amended): for a 32-byte digest function \<open>pack_slot4\<close> returns 32 bytes; byte 0 is
  the template id, looked up from the genus in \<open>template_map\<close> with the default 9 and
  always between 0 and 9; bytes 1 to 31 are bytes 1 to 31 of the digest of the JSON text
  of the metadata, whose keys are written in sorted order. They are bytes 0 to 30 of
  that digest only when all 32 bytes of the digest are equal.
\<close>

theorem slot4_layout:
  assumes "hash32 H"
  shows "\<exists>digest slot.
           keccak_text H (json_dumps_sorted (metadata self)) = Inr digest
         \<and> pack_slot4 H self = Inr slot
         \<and> length slot = 32
         \<and> slot ! 0 = of_int (get_template_id self)
         \<and> drop 1 slot = drop 1 digest
         \<and> (drop 1 slot = take 31 digest \<longleftrightarrow> (\<forall>i<32. digest ! i = digest ! 0))
         \<and> get_template_id self
             = (case map_of template_map (genus self) of Some v \<Rightarrow> v | None \<Rightarrow> 9)
         \<and> 0 \<le> get_template_id self \<and> get_template_id self \<le> 9
         \<and> map fst (sort_key fst (metadata self))
             = [lit ''commonNames'', lit ''family'', lit ''genus'', lit ''properties'',
                lit ''scientificName'']"
proof -
  let ?d = "H (map of_nat (json_dumps_sorted (metadata self)))"
  let ?s = "?d[0 := of_int (get_template_id self)]"
  have ld: "length ?d = 32" using assms by (simp add: hash32_def)
  have k: "keccak_text H (json_dumps_sorted (metadata self)) = Inr ?d"
    by (simp add: keccak_text_def utf8_encode_ascii json_dumps_sorted_ascii)
  have p: "pack_slot4 H self = Inr ?s" using pack_slot4_eq [OF assms] .
  have d1: "drop 1 ?s = drop 1 ?d" by simp
  have s0: "?s ! 0 = of_int (get_template_id self)" using ld by simp
  have sh: "drop 1 ?s = take 31 ?d \<longleftrightarrow> (\<forall>i<32. ?d ! i = ?d ! 0)"
    using shifted_eq_constant [OF ld] by (simp only: d1)
  have keys: "map fst (sort_key fst (metadata self))
             = [lit ''commonNames'', lit ''family'', lit ''genus'', lit ''properties'',
                lit ''scientificName'']"
    by (simp only: metadata_sorted) simp
  have ls: "length ?s = 32" using ld by simp
  have tid: "get_template_id self
               = (case map_of template_map (genus self) of Some v \<Rightarrow> v | None \<Rightarrow> 9)"
    by (simp add: get_template_id_def)
  note rng = get_template_id_range [of self]
  have "keccak_text H (json_dumps_sorted (metadata self)) = Inr ?d
         \<and> pack_slot4 H self = Inr ?s
         \<and> length ?s = 32
         \<and> ?s ! 0 = of_int (get_template_id self)
         \<and> drop 1 ?s = drop 1 ?d
         \<and> (drop 1 ?s = take 31 ?d \<longleftrightarrow> (\<forall>i<32. ?d ! i = ?d ! 0))
         \<and> get_template_id self
             = (case map_of template_map (genus self) of Some v \<Rightarrow> v | None \<Rightarrow> 9)
         \<and> 0 \<le> get_template_id self \<and> get_template_id self \<le> 9
         \<and> map fst (sort_key fst (metadata self))
             = [lit ''commonNames'', lit ''family'', lit ''genus'', lit ''properties'',
                lit ''scientificName'']"
    by (intro conjI k p ls s0 d1 sh tid rng [THEN conjunct1] rng [THEN conjunct2] keys)
  then show ?thesis
    apply -
    apply (rule exI [of _ ?d])
    apply (rule exI [of _ ?s])
    apply assumption
    done
qed

theorem slot4_layout_witness:
  "hash32 keccak256
   \<and> (\<exists>digest slot.
           keccak_text keccak256 (json_dumps_sorted (metadata peyote)) = Inr digest
         \<and> pack_slot4 keccak256 peyote = Inr slot
         \<and> length slot = 32
         \<and> slot ! 0 = 0
         \<and> drop 1 slot = drop 1 digest)
   \<and> get_template_id peyote = 0
   \<and> get_template_id (peyote\<lparr>genus := lit ''Anadenanthera''\<rparr>) = 9"
proof -
  have nine: "get_template_id (peyote\<lparr>genus := lit ''Anadenanthera''\<rparr>) = 9"
    by (simp add: get_template_id_def template_map_def lit_def)
  obtain digest slot where
    "keccak_text keccak256 (json_dumps_sorted (metadata peyote)) = Inr digest"
    "pack_slot4 keccak256 peyote = Inr slot" "length slot = 32"
    "slot ! 0 = of_int (get_template_id peyote)" "drop 1 slot = drop 1 digest"
    using slot4_layout [OF hash32_keccak256, of peyote] by blast
  then show ?thesis
    using hash32_keccak256 nine by (auto simp: template_peyote)
qed

theorem slot4_not_leading_bytes_counterexample:
  "hash32 sample_digest
   \<and> keccak_text sample_digest (json_dumps_sorted (metadata peyote)) = Inr (map of_nat [0..<32])
   \<and> pack_slot4 sample_digest peyote = Inr (map of_nat [0..<32])
   \<and> drop 1 (map of_nat [0..<32] :: bytes) \<noteq> take 31 (map of_nat [0..<32])"
proof -
  have k: "keccak_text sample_digest (json_dumps_sorted (metadata peyote)) = Inr (map of_nat [0..<32])"
    by (simp add: keccak_text_def utf8_encode_ascii json_dumps_sorted_ascii sample_digest_def)
  have "(map of_nat [0..<32] :: bytes)[0 := 0] = map of_nat [0..<32]"
    by (simp add: upt_rec)
  then have p: "pack_slot4 sample_digest peyote = Inr (map of_nat [0..<32])"
    by (simp add: pack_slot4_eq [OF hash32_sample_digest] template_peyote sample_digest_def)
  have ne: "drop 1 (map of_nat [0..<32] :: bytes) \<noteq> take 31 (map of_nat [0..<32])"
    by (simp add: upt_rec)
  show ?thesis using hash32_sample_digest k p ne by blast
qed

subsection \<open>All four slots\<close>

lemma pack_slot1_ok:
  "(\<exists>s. pack_slot1 H self = Inr s) \<longleftrightarrow> encodable (scientific_name self) \<and> encodable (ncbi_code self)"
  by (simp add: pack_slot1_def generate_seed_ok)

lemma pack_slot1_length: "hash32 H \<Longrightarrow> pack_slot1 H self = Inr s \<Longrightarrow> length s = 32"
  by (simp add: pack_slot1_def generate_seed_def keccak_text_length)

lemma pack_slot3_length: "hash32 H \<Longrightarrow> pack_slot3 H lower self = Inr s \<Longrightarrow> length s = 32"
  using pack_slot3_layout [of H lower self s] by (auto simp: be4_def)

lemma pack_slot4_ok: "hash32 H \<Longrightarrow> \<exists>s. pack_slot4 H self = Inr s \<and> length s = 32"
  by (simp add: pack_slot4_eq hash32_def)

text \<open>
  C6 (as amended): for a 32-byte digest function the four slots are all returned, each
  of 32 bytes, exactly for the records whose \<open>scientific_name\<close>, \<open>ncbi_code\<close> and
  \<open>common_names\<close> have a UTF-8 encoding and whose \<open>rarity_tier\<close> is between 0 and 255.
\<close>

theorem packing_total:
  assumes "hash32 H"
  shows "(\<exists>s1 s2 s3 s4.
            pack_slot1 H self = Inr s1 \<and> pack_slot2 self = Inr s2
          \<and> pack_slot3 H lower self = Inr s3 \<and> pack_slot4 H self = Inr s4
          \<and> length s1 = 32 \<and> length s2 = 32 \<and> length s3 = 32 \<and> length s4 = 32)
       \<longleftrightarrow> (encodable (scientific_name self) \<and> encodable (ncbi_code self)
            \<and> list_all encodable (common_names self)
            \<and> 0 \<le> rarity_tier self \<and> rarity_tier self \<le> 255)"
    (is "?lhs \<longleftrightarrow> ?rhs")
proof
  assume ?lhs
  then show ?rhs using pack_slot3_ok [OF assms, of lower self] by blast
next
  assume r: ?rhs
  obtain s1 where s1: "pack_slot1 H self = Inr s1"
    using r pack_slot1_ok [of H self] by blast
  obtain s2 where s2: "pack_slot2 self = Inr s2"
    using r pack_slot2_ok [of self] by blast
  obtain s3 where s3: "pack_slot3 H lower self = Inr s3"
    using r pack_slot3_ok [OF assms, of lower self] by blast
  obtain s4 where s4: "pack_slot4 H self = Inr s4" "length s4 = 32"
    using pack_slot4_ok [OF assms, of self] by blast
  show ?lhs
    using s1 s2 s3 s4 pack_slot1_length [OF assms s1] pack_slot2_length [OF s2]
      pack_slot3_length [OF assms s3]
    by blast
qed

theorem packing_total_witness:
  "hash32 keccak256
   \<and> (\<exists>s1 s2 s3 s4.
            pack_slot1 keccak256 peyote = Inr s1 \<and> pack_slot2 peyote = Inr s2
          \<and> pack_slot3 keccak256 ascii_lower peyote = Inr s3 \<and> pack_slot4 keccak256 peyote = Inr s4
          \<and> length s1 = 32 \<and> length s2 = 32 \<and> length s3 = 32 \<and> length s4 = 32)
   \<and> pack_slot2 peyote = Inr (ascii ''Lophophora williamsii'' @ replicate 11 0)"
proof -
  have "pack_slot2 peyote = Inr (ascii ''Lophophora williamsii'' @ replicate 11 0)"
    by (simp add: pack_slot2_def peyote_def lit_def ascii_def utf8_char_def ljust_def)
  then show ?thesis
    using packing_total [OF hash32_keccak256, of peyote ascii_lower] peyote_encodable peyote_tier
      hash32_keccak256
    by simp
qed

theorem packing_fails_on_tier_counterexample:
  "pack_slot3 keccak256 ascii_lower (peyote\<lparr>rarity_tier := 256\<rparr>) = Inl ValueError"
proof -
  let ?r = "peyote\<lparr>rarity_tier := 256\<rparr>"
  obtain encoded where e: "utf8_encode (ncbi_code peyote) = Inr encoded"
    using utf8_encode_ok [of "ncbi_code peyote"] peyote_encodable by auto
  obtain digest where d: "keccak_text keccak256 (join (lit '','') (common_names peyote)) = Inr digest"
    using keccak_text_ok [of keccak256 "join (lit '','') (common_names peyote)"] peyote_encodable
    by (auto simp: encodable_join_comma)
  obtain traits where t: "generate_traits keccak256 ?r = Inr traits"
    using generate_traits_ok [of keccak256 ?r] generate_seed_ok [of keccak256 ?r] peyote_encodable
    by auto
  show ?thesis
    by (simp add: pack_slot3_eq [OF hash32_keccak256] e d t)
qed

section \<open>Properties of the genesis storage\<close>

subsection \<open>Hexadecimal keys\<close>

text \<open>
  The number a hexadecimal text stands for; it shows that \<open>hex_digits\<close> is injective.
\<close>

definition hex_number :: "pystr \<Rightarrow> nat" where
  "hex_number cs = foldl (\<lambda>a c. 16 * a + (case hex_value c of Some d \<Rightarrow> d | None \<Rightarrow> 0)) 0 cs"

lemma hex_number_snoc:
  "hex_number (cs @ [c]) = 16 * hex_number cs + (case hex_value c of Some d \<Rightarrow> d | None \<Rightarrow> 0)"
  by (simp add: hex_number_def)

lemma hex_number_hex_digits: "hex_number (hex_digits n) = n"
proof (induction n rule: hex_digits.induct)
  case (1 n)
  show ?case
  proof (cases "n < 16")
    case True
    then show ?thesis
      by (subst hex_digits.simps) (simp add: hex_number_def hex_value_hex_digit)
  next
    case False
    have "hex_number (hex_digits n) = 16 * hex_number (hex_digits (n div 16)) + n mod 16"
      using False by (subst hex_digits.simps) (simp add: hex_number_snoc hex_value_hex_digit)
    then show ?thesis using "1.IH" [OF False] by simp
  qed
qed

lemma hex_digits_inject: "hex_digits n = hex_digits m \<Longrightarrow> n = m"
  by (metis hex_number_hex_digits)

lemma hex_inject:
  assumes "hex a = hex b" "0 \<le> a" "0 \<le> b"
  shows "a = b"
proof -
  have "hex_digits (nat a) = hex_digits (nat b)"
    using assms by (simp add: hex_def)
  then have "nat a = nat b" by (rule hex_digits_inject)
  then show ?thesis using assms(2,3) by simp
qed

lemma inj_on_hex: "inj_on hex {0..}"
  by (auto intro!: inj_onI hex_inject)

lemma distinct_map_hex:
  assumes "distinct xs" "\<forall>a \<in> set xs. 0 \<le> a"
  shows "distinct (map hex xs)"
proof -
  have "inj_on hex (set xs)"
    using assms(2) by (intro inj_onI hex_inject) auto
  then show ?thesis using assms(1) by (simp add: distinct_map)
qed

lemma hex_small: "hex 0 = lit ''0x0''" "hex 1 = lit ''0x1''" "hex 2 = lit ''0x2''"
  "hex 3 = lit ''0x3''" "hex 4 = lit ''0x4''" "hex 5 = lit ''0x5''"
  by (simp_all add: hex_def hex_digits.simps hex_digit_def lit_def)

subsection \<open>Dictionaries\<close>

lemma dict_set_fresh: "k \<notin> fst ` set d \<Longrightarrow> dict_set d k v = d @ [(k, v)]"
  by (induction d) auto

lemma dict_update_fresh:
  "distinct (map fst d @ map fst other) \<Longrightarrow> dict_update d other = d @ other"
proof (induction other arbitrary: d)
  case Nil
  then show ?case by (simp add: dict_update_def)
next
  case (Cons kv other)
  obtain k v where kv: "kv = (k, v)" by (cases kv)
  have fresh: "k \<notin> fst ` set d" using Cons.prems kv by auto
  have "distinct (map fst (d @ [(k, v)]) @ map fst other)"
    using Cons.prems kv by auto
  then have "dict_update (d @ [(k, v)]) other = (d @ [(k, v)]) @ other"
    by (rule Cons.IH)
  then show ?case
    using fresh by (simp add: dict_update_def kv dict_set_fresh)
qed

subsection \<open>Slot addresses\<close>

text \<open>
  The four slot indices of a record, \<open>0x10 + (plant_id - 1) * 4 + k\<close> for \<open>k\<close> from 0 to 3,
  as \<open>to_storage_slots\<close> computes them before \<open>hex\<close>.
\<close>

definition slot_addresses :: "PlantData \<Rightarrow> int list" where
  "slot_addresses self = map (\<lambda>k. 0x10 + (plant_id self - 1) * 4 + k) [0, 1, 2, 3]"

lemma slot_addresses_lower: "1 \<le> plant_id self \<Longrightarrow> a \<in> set (slot_addresses self) \<Longrightarrow> 16 \<le> a"
  by (auto simp: slot_addresses_def)

lemma slot_addresses_id:
  "a \<in> set (slot_addresses self) \<Longrightarrow> (a - 16) div 4 = plant_id self - 1"
  by (auto simp: slot_addresses_def)

lemma distinct_slot_addresses: "distinct (slot_addresses self)"
  by (simp add: slot_addresses_def)

lemma distinct_all_addresses:
  "distinct (map plant_id plants) \<Longrightarrow> distinct (concat (map slot_addresses plants))"
proof (induction plants)
  case Nil
  then show ?case by simp
next
  case (Cons p ps)
  have "set (slot_addresses p) \<inter> set (concat (map slot_addresses ps)) = {}"
  proof (rule ccontr)
    assume "set (slot_addresses p) \<inter> set (concat (map slot_addresses ps)) \<noteq> {}"
    then obtain a q where a: "a \<in> set (slot_addresses p)" and q: "q \<in> set ps"
        and a': "a \<in> set (slot_addresses q)"
      by auto
    have "plant_id p - 1 = plant_id q - 1"
      using slot_addresses_id [OF a] slot_addresses_id [OF a'] by simp
    then have "plant_id p \<in> plant_id ` set ps" using q by auto
    then show False using Cons.prems by simp
  qed
  then show ?case
    using Cons distinct_slot_addresses by simp
qed

lemma to_storage_slots_keys:
  assumes "to_storage_slots H lower self = Inr slots" "1 \<le> plant_id self"
  shows "map fst slots = map hex (slot_addresses self)"
proof -
  obtain s1 s2 s3 s4 where
    s: "slots = dict_update []
               [(hex (0x10 + (plant_id self - 1) * 4 + 0), to_hex s1),
                (hex (0x10 + (plant_id self - 1) * 4 + 1), to_hex s2),
                (hex (0x10 + (plant_id self - 1) * 4 + 2), to_hex s3),
                (hex (0x10 + (plant_id self - 1) * 4 + 3), to_hex s4)]"
    using assms(1) by (auto simp: to_storage_slots_def Let_def bind_e_eq_Inr)
  have "\<forall>a \<in> set (slot_addresses self). 0 \<le> a"
    using slot_addresses_lower [OF assms(2)] by fastforce
  then have "distinct (map hex (slot_addresses self))"
    using distinct_slot_addresses by (intro distinct_map_hex)
  then have "distinct (map fst ([] :: (pystr \<times> pystr) list) @ map fst
               [(hex (0x10 + (plant_id self - 1) * 4 + 0), to_hex s1),
                (hex (0x10 + (plant_id self - 1) * 4 + 1), to_hex s2),
                (hex (0x10 + (plant_id self - 1) * 4 + 2), to_hex s3),
                (hex (0x10 + (plant_id self - 1) * 4 + 3), to_hex s4)])"
    by (simp add: slot_addresses_def)
  then show ?thesis
    unfolding s by (subst dict_update_fresh) (simp_all add: slot_addresses_def)
qed

lemma store_plants_keys:
  assumes "store_plants H lower storage plants = Inr storage'"
    and "\<forall>p \<in> set plants. 1 \<le> plant_id p"
    and "distinct (map fst storage @ map hex (concat (map slot_addresses plants)))"
  shows "map fst storage' = map fst storage @ map hex (concat (map slot_addresses plants))"
  using assms
proof (induction plants arbitrary: storage)
  case Nil
  then show ?case by simp
next
  case (Cons p ps)
  obtain slots where sl: "to_storage_slots H lower p = Inr slots"
      and rest: "store_plants H lower (dict_update storage slots) ps = Inr storage'"
    using Cons.prems(1) by (auto simp: bind_e_eq_Inr)
  have keys: "map fst slots = map hex (slot_addresses p)"
    using to_storage_slots_keys [OF sl] Cons.prems(2) by simp
  have "distinct (map fst storage @ map fst slots)"
    using Cons.prems(3) by (auto simp: keys)
  then have upd: "dict_update storage slots = storage @ slots"
    by (rule dict_update_fresh)
  have "map fst storage' = map fst (storage @ slots) @ map hex (concat (map slot_addresses ps))"
  proof (rule Cons.IH)
    show "store_plants H lower (storage @ slots) ps = Inr storage'"
      using rest upd by simp
    show "\<forall>p \<in> set ps. 1 \<le> plant_id p" using Cons.prems(2) by simp
    show "distinct (map fst (storage @ slots) @ map hex (concat (map slot_addresses ps)))"
      using Cons.prems(3) keys by simp
  qed
  then show ?case using keys by simp
qed

lemma header_storage:
  assumes "generate_genesis_storage H lower genesis_time plants = Inr storage"
  shows "\<exists>header. map fst header = map hex [0, 1, 2, 3, 4, 5]
           \<and> store_plants H lower header plants = Inr storage"
proof -
  obtain v0 v1 v2 v3 v4 v5 where
    "store_plants H lower
       [(lit ''0x0'', v0), (lit ''0x1'', v1), (lit ''0x2'', v2), (lit ''0x3'', v3),
        (lit ''0x4'', v4), (lit ''0x5'', v5)] plants = Inr storage"
    using assms
    by (auto simp: generate_genesis_storage_def Let_def bind_e_eq_Inr lit_def)
  then show ?thesis
    by (intro exI [of _ "[(lit ''0x0'', v0), (lit ''0x1'', v1), (lit ''0x2'', v2),
          (lit ''0x3'', v3), (lit ''0x4'', v4), (lit ''0x5'', v5)]"]) (simp add: hex_small)
qed

lemma genesis_storage_keys:
  assumes "generate_genesis_storage H lower genesis_time plants = Inr storage"
    and "distinct (map plant_id plants)"
    and "\<forall>p \<in> set plants. 1 \<le> plant_id p"
  shows "map fst storage
           = map hex ([0, 1, 2, 3, 4, 5] @ concat (map slot_addresses plants))
       \<and> distinct ([0, 1, 2, 3, 4, 5] @ concat (map slot_addresses plants))
       \<and> distinct (map fst storage)
       \<and> length storage = 6 + 4 * length plants"
proof -
  let ?addrs = "[0, 1, 2, 3, 4, 5] @ concat (map slot_addresses plants)"
  obtain header where h: "map fst header = map hex [0, 1, 2, 3, 4, 5]"
      and st: "store_plants H lower header plants = Inr storage"
    using header_storage [OF assms(1)] by blast
  have big: "16 \<le> a" if "a \<in> set (concat (map slot_addresses plants))" for a
    using that assms(3) slot_addresses_lower by auto
  have d: "distinct ?addrs"
    using distinct_all_addresses [OF assms(2)] big by fastforce
  have nonneg: "\<forall>a \<in> set ?addrs. 0 \<le> a"
    using big by fastforce
  have dk: "distinct (map hex ?addrs)"
    using d nonneg by (rule distinct_map_hex)
  have keys: "map fst storage = map hex ?addrs"
    using store_plants_keys [OF st assms(3)] dk h by simp
  have "length (concat (map slot_addresses plants)) = 4 * length plants"
    by (induction plants) (simp_all add: slot_addresses_def)
  then have "length (map fst storage) = 6 + 4 * length plants"
    by (simp add: keys)
  then have len: "length storage = 6 + 4 * length plants"
    by simp
  have dk': "distinct (map fst storage)"
    by (simp only: keys dk)
  show ?thesis
    by (intro conjI keys d dk' len)
qed

text \<open>
  The records for which all four slots are returned: the strings that are encoded have
  a UTF-8 encoding and the tier is a byte.
\<close>

definition packable :: "PlantData \<Rightarrow> bool" where
  "packable self \<longleftrightarrow>
     encodable (scientific_name self) \<and> encodable (ncbi_code self)
     \<and> list_all encodable (common_names self)
     \<and> 0 \<le> rarity_tier self \<and> rarity_tier self \<le> 255"

lemma to_storage_slots_ok:
  assumes "hash32 H" "packable self"
  shows "\<exists>slots. to_storage_slots H lower self = Inr slots"
proof -
  obtain s1 where "pack_slot1 H self = Inr s1"
    using pack_slot1_ok [of H self] assms(2) unfolding packable_def by blast
  moreover obtain s2 where "pack_slot2 self = Inr s2"
    using pack_slot2_ok [of self] assms(2) unfolding packable_def by blast
  moreover obtain s3 where "pack_slot3 H lower self = Inr s3"
    using pack_slot3_ok [OF assms(1), of lower self] assms(2) unfolding packable_def by blast
  moreover obtain s4 where "pack_slot4 H self = Inr s4"
    using pack_slot4_ok [OF assms(1), of self] by blast
  ultimately show ?thesis by (simp add: to_storage_slots_def)
qed

lemma store_plants_ok:
  assumes "hash32 H" "list_all packable plants"
  shows "\<exists>storage'. store_plants H lower storage plants = Inr storage'"
  using assms(2)
proof (induction plants arbitrary: storage)
  case Nil
  then show ?case by simp
next
  case (Cons p ps)
  obtain slots where "to_storage_slots H lower p = Inr slots"
    using to_storage_slots_ok [OF assms(1), of p lower] Cons.prems by auto
  then show ?case using Cons.IH [of "dict_update storage slots"] Cons.prems by simp
qed

lemma seeds_of_ok:
  "list_all packable plants \<Longrightarrow> \<exists>seeds. seeds_of H plants = Inr seeds"
proof (induction plants)
  case Nil
  then show ?case by simp
next
  case (Cons p ps)
  obtain s where "generate_seed H p = Inr s"
    using generate_seed_ok [of H p] Cons.prems by (auto simp: packable_def)
  then show ?case using Cons by auto
qed

lemma generate_genesis_storage_ok:
  assumes "hash32 H" "list_all packable plants" "int (length plants) < 256 ^ 32"
    "0 \<le> genesis_time" "genesis_time < 256 ^ 32"
  shows "\<exists>storage. generate_genesis_storage H lower genesis_time plants = Inr storage"
proof -
  obtain cb where cb: "to_bytes (int (length plants)) 32 = Inr cb"
    using to_bytes_ok [of "int (length plants)" 32] assms(3) by auto
  obtain seeds where seeds: "seeds_of H plants = Inr seeds"
    using seeds_of_ok [OF assms(2)] by blast
  obtain tb where tb: "to_bytes genesis_time 32 = Inr tb"
    using to_bytes_ok [of genesis_time 32] assms(4,5) by auto
  obtain vb where vb: "to_bytes (push_bit 8 1 OR 0) 32 = Inr vb"
    using to_bytes_ok [of 256 32] by auto
  show ?thesis
    by (simp only: generate_genesis_storage_def Let_def cb seeds tb vb bind_e_Inr)
      (rule store_plants_ok [OF assms(1,2)])
qed

lemma hex_block: "hex 16 = lit ''0x10''" "hex 17 = lit ''0x11''" "hex 18 = lit ''0x12''"
  "hex 19 = lit ''0x13''" "hex 20 = lit ''0x14''" "hex 21 = lit ''0x15''"
  "hex 22 = lit ''0x16''" "hex 23 = lit ''0x17''"
  by (simp_all add: hex_def hex_digits.simps hex_digit_def lit_def)

text \<open>
  C10: for records with pairwise distinct ids, all at least 1, a storage returned by
  \<open>generate_genesis_storage\<close> has exactly the keys \<open>hex\<close> of 0 to 5 followed by the four
  slot indices of each record, in this order; these indices are pairwise different, so
  are the keys, and the storage has \<open>6 + 4 * n\<close> entries: no key is written twice. The
  storage is returned for a 32-byte digest function whenever every record can be packed
  and the record count and the clock value fit in 32 bytes.
\<close>

theorem genesis_storage_slots:
  assumes "distinct (map plant_id plants)" and "\<forall>p \<in> set plants. 1 \<le> plant_id p"
  shows "(\<forall>storage. generate_genesis_storage H lower genesis_time plants = Inr storage \<longrightarrow>
            map fst storage
              = map hex ([0, 1, 2, 3, 4, 5] @ concat (map slot_addresses plants))
          \<and> distinct (map fst storage)
          \<and> length storage = 6 + 4 * length plants)
       \<and> distinct ([0, 1, 2, 3, 4, 5] @ concat (map slot_addresses plants))
       \<and> (hash32 H \<longrightarrow> list_all packable plants \<longrightarrow> int (length plants) < 256 ^ 32 \<longrightarrow>
            0 \<le> genesis_time \<longrightarrow> genesis_time < 256 ^ 32 \<longrightarrow>
            (\<exists>storage. generate_genesis_storage H lower genesis_time plants = Inr storage))"
proof -
  have big: "16 \<le> a" if "a \<in> set (concat (map slot_addresses plants))" for a
    using that assms(2) slot_addresses_lower by auto
  have d: "distinct ([0, 1, 2, 3, 4, 5] @ concat (map slot_addresses plants))"
    using distinct_all_addresses [OF assms(1)] big by fastforce
  show ?thesis
    using genesis_storage_keys [OF _ assms] d generate_genesis_storage_ok [of H plants genesis_time lower]
    by blast
qed

theorem genesis_storage_slots_witness:
  "distinct (map plant_id [peyote, peyote\<lparr>plant_id := 2\<rparr>])
   \<and> 1 \<le> plant_id peyote \<and> 1 \<le> plant_id (peyote\<lparr>plant_id := 2\<rparr>)
   \<and> hash32 keccak256 \<and> list_all packable [peyote, peyote\<lparr>plant_id := 2\<rparr>]
   \<and> (\<exists>storage.
         generate_genesis_storage keccak256 ascii_lower 1700000000
           [peyote, peyote\<lparr>plant_id := 2\<rparr>] = Inr storage
       \<and> map fst storage
           = [lit ''0x0'', lit ''0x1'', lit ''0x2'', lit ''0x3'', lit ''0x4'', lit ''0x5'',
              lit ''0x10'', lit ''0x11'', lit ''0x12'', lit ''0x13'',
              lit ''0x14'', lit ''0x15'', lit ''0x16'', lit ''0x17'']
       \<and> length storage = 14)"
proof -
  let ?plants = "[peyote, peyote\<lparr>plant_id := 2\<rparr>]"
  have ids: "distinct (map plant_id ?plants)" by (simp add: peyote_def)
  have pos: "\<forall>p \<in> set ?plants. 1 \<le> plant_id p" by (simp add: peyote_def)
  have pk: "list_all packable ?plants"
    using peyote_encodable peyote_tier by (simp add: packable_def)
  have "\<exists>storage. generate_genesis_storage keccak256 ascii_lower 1700000000 ?plants = Inr storage"
    using genesis_storage_slots [OF ids pos, of keccak256 ascii_lower 1700000000]
      hash32_keccak256 pk
    by simp
  then obtain storage where
    st: "generate_genesis_storage keccak256 ascii_lower 1700000000 ?plants = Inr storage"
    by blast
  note t = genesis_storage_slots [OF ids pos, of keccak256 ascii_lower 1700000000]
  have k: "map fst storage
           = map hex ([0, 1, 2, 3, 4, 5] @ concat (map slot_addresses ?plants))"
    and l: "length storage = 6 + 4 * length ?plants"
    using t st by blast+
  have "map fst storage
           = [lit ''0x0'', lit ''0x1'', lit ''0x2'', lit ''0x3'', lit ''0x4'', lit ''0x5'',
              lit ''0x10'', lit ''0x11'', lit ''0x12'', lit ''0x13'',
              lit ''0x14'', lit ''0x15'', lit ''0x16'', lit ''0x17'']"
    using k by (simp add: slot_addresses_def peyote_def hex_small hex_block)
  moreover have "length storage = 14" using l by simp
  ultimately show ?thesis using st ids pos pk hash32_keccak256 by auto
qed

section \<open>Properties of the seeds\<close>

text \<open>
  The number a decimal text stands for; it shows that \<open>digits\<close> is injective.
\<close>

definition decimal_number :: "pystr \<Rightarrow> nat" where
  "decimal_number cs = foldl (\<lambda>a c. 10 * a + (c - 48)) 0 cs"

lemma decimal_number_digits: "decimal_number (digits n) = n"
proof (induction n rule: digits.induct)
  case (1 n)
  show ?case
  proof (cases "n < 10")
    case True
    then show ?thesis by (subst digits.simps) (simp add: decimal_number_def)
  next
    case False
    have "decimal_number (digits n) = 10 * decimal_number (digits (n div 10)) + n mod 10"
      using False by (subst digits.simps) (simp add: decimal_number_def)
    then show ?thesis using "1.IH" [OF False] by simp
  qed
qed

lemma digits_range: "c \<in> set (digits n) \<Longrightarrow> 48 \<le> c \<and> c \<le> 57"
proof (induction n rule: digits.induct)
  case (1 n)
  show ?case
  proof (cases "n < 10")
    case True
    then show ?thesis using "1.prems" by (subst (asm) digits.simps) simp
  next
    case False
    have "c \<in> set (digits (n div 10)) \<or> c = 48 + n mod 10"
      using False "1.prems" by (subst (asm) digits.simps) auto
    then show ?thesis
    proof
      assume "c \<in> set (digits (n div 10))"
      then show ?thesis using "1.IH" [OF False] by simp
    next
      assume "c = 48 + n mod 10"
      moreover have "n mod 10 < 10" by simp
      ultimately show ?thesis by linarith
    qed
  qed
qed

lemma str_inject: "str a = str b \<Longrightarrow> a = b"
proof -
  assume eq: "str a = str b"
  have no_minus: "lit ''-'' @ digits n \<noteq> digits m" for n m
  proof
    assume h: "lit ''-'' @ digits n = digits m"
    have "45 \<in> set (lit ''-'' @ digits n)" by (simp add: lit_def)
    then have "45 \<in> set (digits m)" by (simp only: h)
    then show False using digits_range [of 45 m] by simp
  qed
  show "a = b"
  proof (cases "a < 0"; cases "b < 0")
    assume "a < 0" "b < 0"
    then have "digits (nat (- a)) = digits (nat (- b))" using eq by (simp add: str_def)
    then have "nat (- a) = nat (- b)" by (metis decimal_number_digits)
    then show ?thesis using \<open>a < 0\<close> \<open>b < 0\<close> by simp
  next
    assume "a < 0" "\<not> b < 0"
    then show ?thesis using eq no_minus by (simp add: str_def)
  next
    assume "\<not> a < 0" "b < 0"
    then show ?thesis using eq no_minus [of "nat (- b)" "nat a"] by (simp add: str_def)
  next
    assume "\<not> a < 0" "\<not> b < 0"
    then have "digits (nat a) = digits (nat b)" using eq by (simp add: str_def)
    then have "nat a = nat b" by (metis decimal_number_digits)
    then show ?thesis using \<open>\<not> a < 0\<close> \<open>\<not> b < 0\<close> by simp
  qed
qed

text \<open>
  C3 (as amended): the text hashed by \<open>generate_seed\<close> of generate-genesis-seeds.py ends
  with the decimal id, so two different ids give two different texts for the same plant
  entry. The text hashed by \<open>PlantData.generate_seed\<close> is built from \<open>scientific_name\<close>
  and \<open>ncbi_code\<close> only: records that agree on these two fields have the same seed,
  whatever their ids.
\<close>

theorem seed_depends_on_id:
  "(a \<noteq> b \<longrightarrow> seed_input name genus_name a \<noteq> seed_input name genus_name b)
   \<and> (plant (lit ''scientific_name'') = Some name \<longrightarrow> plant (lit ''genus'') = Some genus_name \<longrightarrow>
        seeds_generate_seed H plant a
          = bind_e (keccak_text H (seed_input name genus_name a))
              (\<lambda>seed_bytes. Inr (lit ''0x'' @ concat (map hex_byte seed_bytes))))
   \<and> (scientific_name r1 = scientific_name r2 \<longrightarrow> ncbi_code r1 = ncbi_code r2 \<longrightarrow>
        generate_seed H r1 = generate_seed H r2)"
proof -
  have "a = b" if "seed_input name genus_name a = seed_input name genus_name b"
    using that by (simp add: seed_input_def str_inject)
  then show ?thesis
    by (auto simp: seeds_generate_seed_def generate_seed_def generate_seed_data_def)
qed

theorem seed_depends_on_id_witness:
  "(1 :: int) \<noteq> 2
   \<and> seed_input (lit ''Lophophora williamsii'') (lit ''Lophophora'') 1
       = lit ''Lophophora williamsii:Lophophora:ANDE:Genesis:2025:Block0:1''
   \<and> seed_input (lit ''Lophophora williamsii'') (lit ''Lophophora'') 1
       \<noteq> seed_input (lit ''Lophophora williamsii'') (lit ''Lophophora'') 2
   \<and> scientific_name peyote = scientific_name (peyote\<lparr>plant_id := 2\<rparr>)
   \<and> ncbi_code peyote = ncbi_code (peyote\<lparr>plant_id := 2\<rparr>)
   \<and> generate_seed keccak256 peyote = generate_seed keccak256 (peyote\<lparr>plant_id := 2\<rparr>)"
proof -
  have v: "seed_input (lit ''Lophophora williamsii'') (lit ''Lophophora'') 1
       = lit ''Lophophora williamsii:Lophophora:ANDE:Genesis:2025:Block0:1''"
    by (simp add: seed_input_def str_def digits.simps lit_def)
  show ?thesis
    using seed_depends_on_id [of 1 2 "lit ''Lophophora williamsii''" "lit ''Lophophora''"
        "Map.empty" keccak256 peyote "peyote\<lparr>plant_id := 2\<rparr>"] v
    by simp
qed

theorem seed_ignores_id_counterexample:
  "plant_id peyote \<noteq> plant_id (peyote\<lparr>plant_id := 2\<rparr>)
   \<and> (peyote\<lparr>plant_id := 2\<rparr>)\<lparr>plant_id := 1\<rparr> = peyote
   \<and> generate_seed keccak256 peyote = generate_seed keccak256 (peyote\<lparr>plant_id := 2\<rparr>)"
  by (simp add: peyote_def generate_seed_def generate_seed_data_def)

end
